theory Spec2Isabelle
  imports Complex_Main "HOL-Library.Word" "HOL-Library.Sublist"
begin

unbundle bit_operations_syntax

section \<open>Gene codec (types.ts)\<close>

text \<open>
  A gene is a record of five JavaScript numbers. The model keeps them as unbounded
  integers; the packed form is a 32-bit word. On integers, the conversion that
  \<^verbatim>\<open>&\<close>, \<^verbatim>\<open><<\<close>, \<^verbatim>\<open>|\<close> and \<^verbatim>\<open>>>> 0\<close> apply to their operands is
  reduction modulo \<open>2^32\<close>, which is \<open>word_of_int\<close>.
\<close>

type_synonym u32 = "32 word"

record Gene =
  sourceType :: int
  sourceId :: int
  sinkType :: int
  sinkId :: int
  weightAsInt :: int

type_synonym Genome = "Gene list"

definition NEURON :: int where "NEURON = 0"
definition SENSOR :: int where "SENSOR = 1"
definition ACTION :: int where "ACTION = 1"

definition geneToUint32 :: "Gene \<Rightarrow> u32" where
  "geneToUint32 g =
     push_bit 31 (word_of_int (sourceType g) AND 1) OR
     push_bit 24 (word_of_int (sourceId g) AND 0x7F) OR
     push_bit 23 (word_of_int (sinkType g) AND 1) OR
     push_bit 16 (word_of_int (sinkId g) AND 0x7F) OR
     (word_of_int (weightAsInt g) AND 0xFFFF)"

definition uint32ToGene :: "u32 \<Rightarrow> Gene" where
  "uint32ToGene val =
     \<lparr> sourceType = uint (drop_bit 31 val AND 1),
       sourceId = uint (drop_bit 24 val AND 0x7F),
       sinkType = uint (drop_bit 23 val AND 1),
       sinkId = uint (drop_bit 16 val AND 0x7F),
       weightAsInt = (if uint (val AND 0xFFFF) > 0x7FFF
                      then uint (val AND 0xFFFF) - 0x10000
                      else uint (val AND 0xFFFF)) \<rparr>"

text \<open>The ranges of the five fields, as the bit layout of the packed gene gives them.\<close>

definition gene_in_range :: "Gene \<Rightarrow> bool" where
  "gene_in_range g \<longleftrightarrow>
     0 \<le> sourceType g \<and> sourceType g \<le> 1 \<and>
     0 \<le> sourceId g \<and> sourceId g \<le> 127 \<and>
     0 \<le> sinkType g \<and> sinkType g \<le> 1 \<and>
     0 \<le> sinkId g \<and> sinkId g \<le> 127 \<and>
     - 32768 \<le> weightAsInt g \<and> weightAsInt g \<le> 32767"

section \<open>Pseudo-random numbers (random.ts)\<close>

text \<open>
  The generator's state is the \<^verbatim>\<open>Uint32Array(4)\<close> of the class, here four words.
  \<^verbatim>\<open>Math.imul\<close> is multiplication modulo \<open>2^32\<close>. \<^verbatim>\<open>rotl\<close> is called with
  the shift counts 7 and 11 only.
\<close>

record PRNG =
  s0 :: u32
  s1 :: u32
  s2 :: u32
  s3 :: u32

definition rotl :: "u32 \<Rightarrow> nat \<Rightarrow> u32" where
  "rotl x k = push_bit k x OR drop_bit (32 - k) x"

text \<open>One round of the constructor's loop body after \<^verbatim>\<open>z\<close> has been advanced.\<close>

definition splitmix32 :: "u32 \<Rightarrow> u32" where
  "splitmix32 z =
     (let t = z XOR drop_bit 16 z;
          t = t * 0x21f0aaad;
          t = t XOR drop_bit 15 t;
          t = t * 0x735a2d97;
          t = t XOR drop_bit 15 t
      in t)"

definition PRNG_new :: "int \<Rightarrow> PRNG" where
  "PRNG_new seed =
     (let z = (word_of_int seed :: u32);
          z0 = z + 0x9E3779B9;
          z1 = z0 + 0x9E3779B9;
          z2 = z1 + 0x9E3779B9;
          z3 = z2 + 0x9E3779B9
      in \<lparr> s0 = splitmix32 z0, s1 = splitmix32 z1, s2 = splitmix32 z2, s3 = splitmix32 z3 \<rparr>)"

definition nextUint32 :: "PRNG \<Rightarrow> u32 \<times> PRNG" where
  "nextUint32 p =
     (let result = rotl (s1 p * 5) 7 * 9;
          t = push_bit 9 (s1 p);
          p = p\<lparr>s2 := s2 p XOR s0 p\<rparr>;
          p = p\<lparr>s3 := s3 p XOR s1 p\<rparr>;
          p = p\<lparr>s1 := s1 p XOR s2 p\<rparr>;
          p = p\<lparr>s0 := s0 p XOR s3 p\<rparr>;
          p = p\<lparr>s2 := s2 p XOR t\<rparr>;
          p = p\<lparr>s3 := rotl (s3 p) 11\<rparr>
      in (result, p))"

text \<open>The first \<open>n\<close> values that successive calls of \<^verbatim>\<open>nextUint32\<close> return.\<close>

fun outputs :: "nat \<Rightarrow> PRNG \<Rightarrow> u32 list" where
  "outputs 0 p = []"
| "outputs (Suc n) p = (let (r, p') = nextUint32 p in r # outputs n p')"

text \<open>
  The state update as the specification words it: the six assignments performed one
  after the other, so that the shift reads the already updated second word.
\<close>

definition spec_state_update :: "PRNG \<Rightarrow> PRNG" where
  "spec_state_update p =
     (let p = p\<lparr>s2 := s2 p XOR s0 p\<rparr>;
          p = p\<lparr>s3 := s3 p XOR s1 p\<rparr>;
          p = p\<lparr>s1 := s1 p XOR s2 p\<rparr>;
          p = p\<lparr>s0 := s0 p XOR s3 p\<rparr>;
          p = p\<lparr>s2 := s2 p XOR push_bit 9 (s1 p)\<rparr>;
          p = p\<lparr>s3 := rotl (s3 p) 11\<rparr>
      in p)"


section \<open>Directions, coordinates and networks (types.ts)\<close>

text \<open>
  The remainder operator of JavaScript truncates towards zero: the result has the sign
  of the dividend. Both operands are integers and the divisor is not zero wherever the
  model applies it to decide a claim.
\<close>

definition js_rem :: "int \<Rightarrow> int \<Rightarrow> int" where
  "js_rem a b = sgn a * (\<bar>a\<bar> mod \<bar>b\<bar>)"

text \<open>
  \<^verbatim>\<open>Compass\<close> is a numeric enumeration: \<open>N = 0\<close>, then clockwise to \<open>NW = 7\<close>, and
  \<open>CENTER = 8\<close>. A \<^verbatim>\<open>Dir\<close> wraps one such number.
\<close>

definition Compass_N :: int where "Compass_N = 0"
definition Compass_NE :: int where "Compass_NE = 1"
definition Compass_E :: int where "Compass_E = 2"
definition Compass_SE :: int where "Compass_SE = 3"
definition Compass_S :: int where "Compass_S = 4"
definition Compass_SW :: int where "Compass_SW = 5"
definition Compass_W :: int where "Compass_W = 6"
definition Compass_NW :: int where "Compass_NW = 7"
definition Compass_CENTER :: int where "Compass_CENTER = 8"

record Dir =
  dir9 :: int

text \<open>The fields \<^verbatim>\<open>x\<close> and \<^verbatim>\<open>y\<close> of a coordinate are named \<open>cx\<close> and \<open>cy\<close> here.\<close>

record Coord =
  cx :: int
  cy :: int

definition coordAdd :: "Coord \<Rightarrow> Coord \<Rightarrow> Coord" where
  "coordAdd a b = \<lparr> cx = cx a + cx b, cy = cy a + cy b \<rparr>"

definition DIR_AS_COORD :: "Coord list" where
  "DIR_AS_COORD =
     [ \<lparr> cx = 0, cy = - 1 \<rparr>, \<lparr> cx = 1, cy = - 1 \<rparr>, \<lparr> cx = 1, cy = 0 \<rparr>,
       \<lparr> cx = 1, cy = 1 \<rparr>, \<lparr> cx = 0, cy = 1 \<rparr>, \<lparr> cx = - 1, cy = 1 \<rparr>,
       \<lparr> cx = - 1, cy = 0 \<rparr>, \<lparr> cx = - 1, cy = - 1 \<rparr>, \<lparr> cx = 0, cy = 0 \<rparr> ]"

definition rotate :: "Dir \<Rightarrow> int \<Rightarrow> Dir" where
  "rotate d n =
     (if dir9 d = Compass_CENTER then \<lparr> dir9 = Compass_CENTER \<rparr>
      else \<lparr> dir9 = js_rem (js_rem (dir9 d + n) 8 + 8) 8 \<rparr>)"

definition rotate90CW :: "Dir \<Rightarrow> Dir" where
  "rotate90CW d = rotate d 2"

definition rotate90CCW :: "Dir \<Rightarrow> Dir" where
  "rotate90CCW d = rotate d (- 2)"

definition rotate180 :: "Dir \<Rightarrow> Dir" where
  "rotate180 d = rotate d 4"

text \<open>
  A direction holds one of the nine enumeration values, so the table lookup is in
  range; outside it JavaScript yields \<^verbatim>\<open>undefined\<close>, here \<open>None\<close>.
\<close>

definition asNormalizedCoord :: "Dir \<Rightarrow> Coord option" where
  "asNormalizedCoord d =
     (if 0 \<le> dir9 d \<and> dir9 d < 9 then Some (DIR_AS_COORD ! nat (dir9 d)) else None)"

text \<open>
  A resolved connection. The weight is the gene's 16-bit integer divided by 8192, a
  quotient that binary floating point represents exactly; the model keeps it as a real.
\<close>

record NeuralConnection =
  sourceType :: int
  sourceId :: int
  sinkType :: int
  sinkId :: int
  weight :: real

record Neuron =
  "output" :: real
  driven :: bool

record NeuralNet =
  connections :: "NeuralConnection list"
  neurons :: "Neuron list"

definition NUM_SENSES :: int where "NUM_SENSES = 21"
definition NUM_ACTIONS :: int where "NUM_ACTIONS = 17"

definition EMPTY :: "16 word" where "EMPTY = 0"
definition BARRIER :: "16 word" where "BARRIER = 0xFFFF"

definition GENE_WEIGHT_DIVISOR :: real where "GENE_WEIGHT_DIVISOR = 8192"

definition geneWeight :: "Gene \<Rightarrow> real" where
  "geneWeight g = real_of_int (weightAsInt g) / GENE_WEIGHT_DIVISOR"

section \<open>Derived draws (random.ts)\<close>

text \<open>
  \<^verbatim>\<open>next()\<close> divides the 32-bit output by \<open>2^32\<close>, which is exact in double
  precision. \<^verbatim>\<open>nextInt(max)\<close> multiplies by \<open>max\<close> and takes the floor; the product
  of a 32-bit value and an integer below \<open>2^21\<close> is exact as well, so on these
  arguments the real numbers of the model are the numbers the code computes.
  Probabilities are double-precision numbers, read as the reals they denote.
\<close>

definition next01 :: "PRNG \<Rightarrow> real \<times> PRNG" where
  "next01 p = (let (u, p') = nextUint32 p in (real_of_int (uint u) / 4294967296, p'))"

definition nextInt :: "PRNG \<Rightarrow> int \<Rightarrow> int \<times> PRNG" where
  "nextInt p m = (let (r, p') = next01 p in (\<lfloor>r * real_of_int m\<rfloor>, p'))"

definition nextRange :: "PRNG \<Rightarrow> int \<Rightarrow> int \<Rightarrow> int \<times> PRNG" where
  "nextRange p lo hi =
     (let (r, p') = next01 p in (lo + \<lfloor>r * real_of_int (hi - lo + 1)\<rfloor>, p'))"

definition chance :: "PRNG \<Rightarrow> real \<Rightarrow> bool \<times> PRNG" where
  "chance p prob = (let (r, p') = next01 p in (r < prob, p'))"

text \<open>The state of the generator after one more call of \<^verbatim>\<open>nextUint32\<close>.\<close>

definition prng_step :: "PRNG \<Rightarrow> PRNG" where
  "prng_step p = snd (nextUint32 p)"

text \<open>
  \<^verbatim>\<open>makeRandomGene\<close> receives the bound \<^verbatim>\<open>next\<close>; it scales the draw back to 32 bits
  and unpacks it.
\<close>

definition makeRandomGene :: "PRNG \<Rightarrow> Gene \<times> PRNG" where
  "makeRandomGene p =
     (let (r, p') = next01 p in (uint32ToGene (word_of_int \<lfloor>r * 4294967296\<rfloor>), p'))"

section \<open>Genome operators (genome.ts)\<close>

fun makeRandomGenome :: "PRNG \<Rightarrow> nat \<Rightarrow> Genome \<times> PRNG" where
  "makeRandomGenome p 0 = ([], p)"
| "makeRandomGenome p (Suc n) =
     (let (g, p1) = makeRandomGene p;
          (gs, p2) = makeRandomGenome p1 n
      in (g # gs, p2))"

text \<open>
  The loop of \<^verbatim>\<open>applyPointMutations\<close> visits the genes in order and threads the
  generator through them. \<^verbatim>\<open>1 << bit\<close> has \<open>bit\<close> between 0 and 31.
\<close>

fun applyPointMutations :: "Genome \<Rightarrow> PRNG \<Rightarrow> real \<Rightarrow> Genome \<times> PRNG" where
  "applyPointMutations [] p rate = ([], p)"
| "applyPointMutations (g # gs) p rate =
     (let (c, p1) = chance p rate in
      if c then
        (let val = geneToUint32 g;
             (bit, p2) = nextInt p1 32;
             mutated = val XOR push_bit (nat bit) 1;
             (gs', p3) = applyPointMutations gs p2 rate
         in (uint32ToGene mutated # gs', p3))
      else
        (let (gs', p3) = applyPointMutations gs p1 rate in (g # gs', p3)))"

text \<open>\<^verbatim>\<open>splice(idx, 1)\<close> and \<^verbatim>\<open>splice(idx, 0, gene)\<close> on a list.\<close>

definition splice_delete :: "'a list \<Rightarrow> nat \<Rightarrow> 'a list" where
  "splice_delete xs i = take i xs @ drop (Suc i) xs"

definition splice_insert :: "'a list \<Rightarrow> nat \<Rightarrow> 'a \<Rightarrow> 'a list" where
  "splice_insert xs i v = take i xs @ v # drop i xs"

definition applyInsertionDeletion ::
  "Genome \<Rightarrow> PRNG \<Rightarrow> real \<Rightarrow> real \<Rightarrow> int \<Rightarrow> Genome \<times> PRNG" where
  "applyInsertionDeletion genome p rate deletionRatio maxLength =
     (if length genome = 0 then (genome, p)
      else
        (let (c1, p1) = chance p rate in
         if c1 then
           (let (c2, p2) = chance p1 deletionRatio in
            if c2 then
              (if length genome > 1 then
                 (let (idx, p3) = nextInt p2 (int (length genome))
                  in (splice_delete genome (nat idx), p3))
               else (genome, p2))
            else
              (if int (length genome) < maxLength then
                 (let (idx, p3) = nextInt p2 (int (length genome) + 1);
                      (gene, p4) = makeRandomGene p3
                  in (splice_insert genome (nat idx) gene, p4))
               else (genome, p2)))
         else (genome, p1)))"

text \<open>
  \<^verbatim>\<open>crossover\<close>: the first loop copies \<open>parent1[0..cross1]\<close>, the second
  \<open>parent2[cross2+1..]\<close>.
\<close>

definition crossover :: "Genome \<Rightarrow> Genome \<Rightarrow> PRNG \<Rightarrow> Genome \<times> PRNG" where
  "crossover parent1 parent2 p =
     (if length parent1 = 0 then (parent2, p)
      else if length parent2 = 0 then (parent1, p)
      else
        (let (cross1, p1) = nextInt p (int (length parent1));
             (cross2, p2) = nextInt p1 (int (length parent2));
             child = take (nat (cross1 + 1)) parent1 @ drop (nat (cross2 + 1)) parent2
         in if length child > 0 then (child, p2)
            else (let (g, p3) = makeRandomGene p2 in ([g], p3))))"

section \<open>Building the network (neural-net.ts)\<close>

text \<open>
  Reading \<^verbatim>\<open>neurons[i].driven\<close> or writing it raises a \<^verbatim>\<open>TypeError\<close> when \<open>i\<close> is
  not an index of the array, because \<^verbatim>\<open>neurons[i]\<close> is \<^verbatim>\<open>undefined\<close> then. With
  \<^verbatim>\<open>numInternalNeurons = 0\<close> the remainder is \<^verbatim>\<open>NaN\<close> in the source and the array is
  empty, so every use of such an id as an index fails in the source as it does here.
\<close>

datatype js_error = TypeError

definition mkConnection :: "Gene \<Rightarrow> nat \<Rightarrow> NeuralConnection" where
  "mkConnection gene numInternalNeurons =
     \<lparr> sourceType = Gene.sourceType gene,
       sourceId = (if Gene.sourceType gene = SENSOR
                   then js_rem (Gene.sourceId gene) NUM_SENSES
                   else js_rem (Gene.sourceId gene) (int numInternalNeurons)),
       sinkType = Gene.sinkType gene,
       sinkId = (if Gene.sinkType gene = ACTION
                 then js_rem (Gene.sinkId gene) NUM_ACTIONS
                 else js_rem (Gene.sinkId gene) (int numInternalNeurons)),
       weight = geneWeight gene \<rparr>"

definition neuron_at :: "Neuron list \<Rightarrow> int \<Rightarrow> Neuron option" where
  "neuron_at ns i = (if 0 \<le> i \<and> i < int (length ns) then Some (ns ! nat i) else None)"

text \<open>The loop that sets \<^verbatim>\<open>driven\<close> for the sink of every connection into a neuron.\<close>

fun markDriven :: "Neuron list \<Rightarrow> NeuralConnection list \<Rightarrow> js_error + Neuron list" where
  "markDriven ns [] = Inr ns"
| "markDriven ns (c # cs) =
     (if sinkType c = NEURON then
        (case neuron_at ns (sinkId c) of
           None \<Rightarrow> Inl TypeError
         | Some nr \<Rightarrow> markDriven (ns[nat (sinkId c) := nr\<lparr>driven := True\<rparr>]) cs)
      else markDriven ns cs)"

text \<open>
  One pass of the inner loop, which runs from the last connection to the first and
  splices out each connection whose source is a neuron that is not driven. The flags
  do not change during the pass. The result is the remaining list and \<^verbatim>\<open>changed\<close>.
\<close>

fun prunePass ::
  "Neuron list \<Rightarrow> NeuralConnection list \<Rightarrow> js_error + (NeuralConnection list \<times> bool)" where
  "prunePass ns [] = Inr ([], False)"
| "prunePass ns (c # cs) =
     (case prunePass ns cs of
        Inl e \<Rightarrow> Inl e
      | Inr (cs', changed) \<Rightarrow>
          (if sourceType c = NEURON then
             (case neuron_at ns (sourceId c) of
                None \<Rightarrow> Inl TypeError
              | Some nr \<Rightarrow> if \<not> driven nr then Inr (cs', True) else Inr (c # cs', changed))
           else Inr (c # cs', changed)))"

text \<open>
  The loop \<^verbatim>\<open>while (changed)\<close>: a pass, then all flags cleared and set again from
  the remaining connections, and another round if the pass removed something.
\<close>

function pruneLoop ::
  "Neuron list \<Rightarrow> NeuralConnection list \<Rightarrow> js_error + NeuralNet" where
  "pruneLoop ns conns =
     (case prunePass ns conns of
        Inl e \<Rightarrow> Inl e
      | Inr (cs', changed) \<Rightarrow>
          (case markDriven (map (\<lambda>n. n\<lparr>driven := False\<rparr>) ns) cs' of
             Inl e \<Rightarrow> Inl e
           | Inr ns' \<Rightarrow>
               if changed then pruneLoop ns' cs'
               else Inr \<lparr> connections = cs', neurons = ns' \<rparr>))"
  by pat_completeness auto
termination
proof (relation "measure (\<lambda>(ns, conns). length conns)")
  show "wf (measure (\<lambda>(ns, conns). length conns))"
    by simp
next
  fix ns :: "Neuron list" and conns :: "NeuralConnection list"
    and x2 x y ns'
  assume p: "prunePass ns conns = Inr x2" and x: "(x, y) = x2" and "y"
  have shrink: "prunePass ms cs = Inr (ds, True) \<Longrightarrow> length ds < length cs"
    and bound: "prunePass ms cs = Inr (ds, b) \<Longrightarrow> length ds \<le> length cs" for ms cs ds b
  proof -
    have "(prunePass ms cs = Inr (ds, b) \<longrightarrow> length ds \<le> length cs \<and> (b \<longrightarrow> length ds < length cs))"
      for ds b
      by (induction cs arbitrary: ds b)
        (auto split: sum.splits prod.splits if_splits option.splits, fastforce+)
    then show "prunePass ms cs = Inr (ds, True) \<Longrightarrow> length ds < length cs"
      and "prunePass ms cs = Inr (ds, b) \<Longrightarrow> length ds \<le> length cs"
      by blast+
  qed
  from p x \<open>y\<close> have "prunePass ns conns = Inr (x, True)"
    by simp
  then show "((ns', x), (ns, conns)) \<in> measure (\<lambda>(ns, conns). length conns)"
    using shrink by simp
qed

declare pruneLoop.simps [simp del]

definition buildNeuralNet :: "Genome \<Rightarrow> nat \<Rightarrow> js_error + NeuralNet" where
  "buildNeuralNet genome numInternalNeurons =
     (let connections = map (\<lambda>gene. mkConnection gene numInternalNeurons) genome;
          neurons = replicate numInternalNeurons \<lparr> output = 0.5, driven = False \<rparr>
      in case markDriven neurons connections of
           Inl e \<Rightarrow> Inl e
         | Inr neurons \<Rightarrow> pruneLoop neurons connections)"

section \<open>The grid (grid.ts)\<close>

text \<open>
  The cells are a \<^verbatim>\<open>Uint16Array\<close> in row-major order. A typed array ignores a
  write outside its range and reads \<^verbatim>\<open>undefined\<close> there (\<open>None\<close> in the model); a
  write converts the number to 16 bits.
\<close>

record Grid =
  sizeX :: int
  sizeY :: int
  data :: "16 word list"

definition Grid_new :: "int \<Rightarrow> int \<Rightarrow> Grid" where
  "Grid_new sx sy = \<lparr> Grid.sizeX = sx, sizeY = sy, data = replicate (nat (sx * sy)) 0 \<rparr>"

definition grid_idx :: "Grid \<Rightarrow> int \<Rightarrow> int \<Rightarrow> int" where
  "grid_idx g px py = py * Grid.sizeX g + px"

definition isInBounds :: "Grid \<Rightarrow> Coord \<Rightarrow> bool" where
  "isInBounds g l \<longleftrightarrow> cx l \<ge> 0 \<and> cx l < Grid.sizeX g \<and> cy l \<ge> 0 \<and> cy l < Grid.sizeY g"

definition grid_at :: "Grid \<Rightarrow> Coord \<Rightarrow> 16 word option" where
  "grid_at g l =
     (let i = grid_idx g (cx l) (cy l)
      in if 0 \<le> i \<and> i < int (length (data g)) then Some (data g ! nat i) else None)"

definition grid_set :: "Grid \<Rightarrow> Coord \<Rightarrow> int \<Rightarrow> Grid" where
  "grid_set g l v =
     (let i = grid_idx g (cx l) (cy l)
      in if 0 \<le> i \<and> i < int (length (data g))
         then g\<lparr>data := (data g)[nat i := word_of_int v]\<rparr> else g)"

definition isEmptyAt :: "Grid \<Rightarrow> Coord \<Rightarrow> bool" where
  "isEmptyAt g l \<longleftrightarrow> grid_at g l = Some EMPTY"

definition isBarrierAt :: "Grid \<Rightarrow> Coord \<Rightarrow> bool" where
  "isBarrierAt g l \<longleftrightarrow> grid_at g l = Some BARRIER"

definition isOccupiedAt :: "Grid \<Rightarrow> Coord \<Rightarrow> bool" where
  "isOccupiedAt g l \<longleftrightarrow> grid_at g l \<noteq> Some EMPTY \<and> grid_at g l \<noteq> Some BARRIER"

section \<open>Double-precision arithmetic\<close>

text \<open>
  A \<^verbatim>\<open>number\<close> is an IEEE 754 double, and \<^verbatim>\<open>+\<close>, \<^verbatim>\<open>-\<close>, \<^verbatim>\<open>*\<close>, \<^verbatim>\<open>/\<close> and
  \<^verbatim>\<open>Math.sqrt\<close> give the double nearest to the exact result, the one with the even
  significand when two are equally near. \<open>dbl x\<close> is that double for the real \<open>x\<close>:
  the significand has 53 bits, so the unit in the last place of \<open>x\<close> is 2 to the power
  \<open>\<lfloor>log 2 \<bar>x\<bar>\<rfloor> - 52\<close>, and not less than the \<^verbatim>\<open>2^-1074\<close> of the subnormal numbers.
  Results beyond the largest double do not occur where the model uses \<open>dbl\<close>.
  Whole numbers of magnitude up to \<^verbatim>\<open>2^53\<close> are doubles, and the model computes with
  them as integers.
\<close>

definition pow2 :: "int \<Rightarrow> real" where
  "pow2 e = (if 0 \<le> e then 2 ^ nat e else 1 / 2 ^ nat (- e))"

definition round_even :: "real \<Rightarrow> int" where
  "round_even x =
     (if x - real_of_int \<lfloor>x\<rfloor> < 1 / 2 then \<lfloor>x\<rfloor>
      else if 1 / 2 < x - real_of_int \<lfloor>x\<rfloor> then \<lfloor>x\<rfloor> + 1
      else if even \<lfloor>x\<rfloor> then \<lfloor>x\<rfloor> else \<lfloor>x\<rfloor> + 1)"

definition dbl_exponent :: "real \<Rightarrow> int" where
  "dbl_exponent x = max (\<lfloor>log 2 \<bar>x\<bar>\<rfloor> - 52) (- 1074)"

definition dbl :: "real \<Rightarrow> real" where
  "dbl x =
     (if x = 0 then 0
      else real_of_int (round_even (x / pow2 (dbl_exponent x))) * pow2 (dbl_exponent x))"

section \<open>Signal layers (signals.ts)\<close>

text \<open>
  Each layer is a \<^verbatim>\<open>Uint8Array\<close>; the model keeps the cells as integers and writes
  the conversion of a stored number to 8 bits out as \<open>u8\<close>. The layers are private
  to the class, so every \<^verbatim>\<open>Signals\<close> value has \<^verbatim>\<open>numLayers\<close> layers of
  \<^verbatim>\<open>sizeX * sizeY\<close> cells. Layer numbers are natural numbers. A radius is a real,
  and what \<^verbatim>\<open>emit\<close> computes from it is rounded to doubles with \<open>dbl\<close>; the offsets,
  their squares and the sums of two squares are whole numbers, exact in doubles for a
  radius below \<^verbatim>\<open>2^26\<close>. \<^verbatim>\<open>Math.round\<close> is \<open>round\<close>, the floor of the number plus
  one half.
\<close>

record Signals =
  sizeX :: int
  sizeY :: int
  numLayers :: nat
  layers :: "int list list"

definition u8 :: "int \<Rightarrow> int" where
  "u8 v = v mod 256"

definition Signals_new :: "int \<Rightarrow> int \<Rightarrow> nat \<Rightarrow> Signals" where
  "Signals_new sx sy n =
     \<lparr> Signals.sizeX = sx, sizeY = sy, numLayers = n,
       layers = replicate n (replicate (nat (sx * sy)) 0) \<rparr>"

definition sig_idx :: "Signals \<Rightarrow> int \<Rightarrow> int \<Rightarrow> int" where
  "sig_idx s px py = py * Signals.sizeX s + px"

definition sig_isInBounds :: "Signals \<Rightarrow> Coord \<Rightarrow> bool" where
  "sig_isInBounds s l \<longleftrightarrow>
     cx l \<ge> 0 \<and> cx l < Signals.sizeX s \<and> cy l \<ge> 0 \<and> cy l < Signals.sizeY s"

definition sig_get :: "Signals \<Rightarrow> nat \<Rightarrow> Coord \<Rightarrow> int" where
  "sig_get s layerNum l =
     (if \<not> sig_isInBounds s l \<or> layerNum \<ge> numLayers s then 0
      else layers s ! layerNum ! nat (sig_idx s (cx l) (cy l)))"

text \<open>The assignment \<^verbatim>\<open>this.layers[layerNum][i] = v\<close>.\<close>

definition sig_store :: "Signals \<Rightarrow> nat \<Rightarrow> int \<Rightarrow> int \<Rightarrow> Signals" where
  "sig_store s layerNum i v =
     s\<lparr>layers := (layers s)[layerNum := (layers s ! layerNum)[nat i := u8 v]]\<rparr>"

definition increment :: "Signals \<Rightarrow> nat \<Rightarrow> Coord \<Rightarrow> int \<Rightarrow> Signals" where
  "increment s layerNum l amount =
     (if \<not> sig_isInBounds s l \<or> layerNum \<ge> numLayers s then s
      else
        (let i = sig_idx s (cx l) (cy l);
             newVal = layers s ! layerNum ! nat i + amount
         in sig_store s layerNum i (min 255 (max 0 (round (real_of_int newVal))))))"

text \<open>The body of the two nested loops of \<^verbatim>\<open>emit\<close>, for one pair of offsets.\<close>

definition emit_cell :: "nat \<Rightarrow> Coord \<Rightarrow> real \<Rightarrow> int \<Rightarrow> int \<Rightarrow> Signals \<Rightarrow> Signals" where
  "emit_cell layerNum center radius dx dy s =
     (if real_of_int (dx * dx + dy * dy) \<le> dbl (radius * radius) then
        (let l = \<lparr> cx = cx center + dx, cy = cy center + dy \<rparr> in
         if sig_isInBounds s l then
           (let dist = dbl (sqrt (real_of_int (dx * dx + dy * dy)));
                strength = round (dbl (255 * dbl (1 - dbl (dist / dbl (radius + 1)))))
            in increment s layerNum l (max 1 strength))
         else s)
      else s)"

definition emit :: "Signals \<Rightarrow> nat \<Rightarrow> Coord \<Rightarrow> real \<Rightarrow> Signals" where
  "emit s layerNum center radius =
     (let iRadius = \<lfloor>radius\<rfloor> in
      fold (\<lambda>dx s. fold (\<lambda>dy s. emit_cell layerNum center radius dx dy s)
                          [- iRadius..iRadius] s)
           [- iRadius..iRadius] s)"

definition fade :: "Signals \<Rightarrow> nat \<Rightarrow> Signals" where
  "fade s layerNum =
     (if layerNum \<ge> numLayers s then s
      else s\<lparr>layers := (layers s)[layerNum :=
               map (\<lambda>v. if v > 0 then u8 (max 0 (v - 1)) else v) (layers s ! layerNum)]\<rparr>)"

definition zeroFill :: "Signals \<Rightarrow> Signals" where
  "zeroFill s = s\<lparr>layers := map (map (\<lambda>v. 0)) (layers s)\<rparr>"

text \<open>
  \<^verbatim>\<open>getSignalDensity\<close> adds up the cells of the neighbourhood that are in bounds
  and counts them; the quotient is a double in the source and a real here.
\<close>

definition density_cell ::
  "Signals \<Rightarrow> nat \<Rightarrow> Coord \<Rightarrow> real \<Rightarrow> int \<Rightarrow> int \<Rightarrow> int \<times> int \<Rightarrow> int \<times> int" where
  "density_cell s layerNum center radius dx dy acc =
     (if real_of_int (dx * dx + dy * dy) \<le> radius * radius then
        (let l = \<lparr> cx = cx center + dx, cy = cy center + dy \<rparr> in
         if sig_isInBounds s l
         then (fst acc + layers s ! layerNum ! nat (sig_idx s (cx l) (cy l)), snd acc + 1)
         else acc)
      else acc)"

definition getSignalDensity :: "Signals \<Rightarrow> nat \<Rightarrow> Coord \<Rightarrow> real \<Rightarrow> real" where
  "getSignalDensity s layerNum center radius =
     (if layerNum \<ge> numLayers s then 0
      else
        (let iRadius = \<lfloor>radius\<rfloor>;
             (sum, count) =
               fold (\<lambda>dx acc. fold (\<lambda>dy acc. density_cell s layerNum center radius dx dy acc)
                                    [- iRadius..iRadius] acc)
                    [- iRadius..iRadius] (0, 0)
         in if count > 0 then real_of_int sum / (real_of_int count * 255) else 0))"

text \<open>A sequence of calls of \<^verbatim>\<open>emit\<close> and \<^verbatim>\<open>fade\<close>.\<close>

datatype signal_op = Emit nat Coord real | Fade nat

fun apply_signal_op :: "signal_op \<Rightarrow> Signals \<Rightarrow> Signals" where
  "apply_signal_op (Emit layerNum center radius) s = emit s layerNum center radius"
| "apply_signal_op (Fade layerNum) s = fade s layerNum"

section \<open>Parameters and individuals (config.ts, indiv.ts)\<close>

text \<open>
  The options that the modelled functions read. Counts are natural numbers, sizes and
  lengths integers, rates and radii the reals that their double-precision values denote.
\<close>

record SimParams =
  population :: nat
  stepsPerGeneration :: int
  sizeX :: int
  sizeY :: int
  genomeInitialLengthMin :: int
  genomeInitialLengthMax :: int
  genomeMaxLength :: int
  maxNumberNeurons :: nat
  pointMutationRate :: real
  geneInsertionDeletionRate :: real
  deletionRatio :: real
  sexualReproduction :: bool
  chooseParentsByFitness :: bool
  responsivenessCurveKFactor :: real
  signalLayers :: nat
  signalSensorRadius :: real
  longProbeDistance :: int
  shortProbeBarrierDistance :: int
  killEnable :: bool
  rngSeed :: int
  populationSensorRadius :: real

record Indiv =
  index :: nat
  alive :: bool
  loc :: Coord
  birthLoc :: Coord
  lastMoveDir :: Dir
  genome :: Genome
  nnet :: NeuralNet
  age :: int
  responsiveness :: real
  oscPeriod :: int
  longProbeDist :: int
  challengeBits :: int
  lastDirection :: Dir

definition createIndiv :: "nat \<Rightarrow> Genome \<Rightarrow> Coord \<Rightarrow> SimParams \<Rightarrow> js_error + Indiv" where
  "createIndiv i g l params =
     (case buildNeuralNet g (maxNumberNeurons params) of
        Inl e \<Rightarrow> Inl e
      | Inr net \<Rightarrow>
          Inr \<lparr> index = i, alive = True, loc = l, birthLoc = l,
                lastMoveDir = \<lparr> dir9 = Compass_CENTER \<rparr>, genome = g, nnet = net, age = 0,
                responsiveness = 0.5, oscPeriod = 34,
                longProbeDist = longProbeDistance params, challengeBits = 0,
                lastDirection = \<lparr> dir9 = Compass_CENTER \<rparr> \<rparr>)"

text \<open>\<^verbatim>\<open>responsivenessCurve\<close>, with the exponential of the reals.\<close>

definition responsivenessCurve :: "real \<Rightarrow> real \<Rightarrow> real" where
  "responsivenessCurve rawResponsiveness kFactor =
     1 / (1 + exp (- kFactor * (rawResponsiveness - 0.5) * 8))"

section \<open>The population and its queues (peeps.ts)\<close>

text \<open>
  \<^verbatim>\<open>individuals\<close> is an array whose slot 0 holds \<^verbatim>\<open>null\<close>; \<^verbatim>\<open>null\<close> and the
  \<^verbatim>\<open>undefined\<close> of a slot outside the array both fail the test \<^verbatim>\<open>indiv && indiv.alive\<close>
  and are \<open>None\<close> here. An individual is the object in its slot: the model changes it
  there.
\<close>

record DeathRecord =
  indivIndex :: nat

record MoveRecord =
  indivIndex :: nat
  newLoc :: Coord

record Peeps =
  individuals :: "Indiv option list"
  deathQueue :: "DeathRecord list"
  moveQueue :: "MoveRecord list"

definition peeps_get :: "Indiv option list \<Rightarrow> nat \<Rightarrow> Indiv option" where
  "peeps_get inds i = (if i < length inds then inds ! i else None)"

definition getPopulationSize :: "Peeps \<Rightarrow> nat" where
  "getPopulationSize ps = length (individuals ps) - 1"

definition queueMove :: "Peeps \<Rightarrow> nat \<Rightarrow> Coord \<Rightarrow> Peeps" where
  "queueMove ps i l = ps\<lparr>moveQueue := moveQueue ps @ [\<lparr> MoveRecord.indivIndex = i, newLoc = l \<rparr>]\<rparr>"

definition queueDeath :: "Peeps \<Rightarrow> nat \<Rightarrow> Peeps" where
  "queueDeath ps i = ps\<lparr>deathQueue := deathQueue ps @ [\<lparr> DeathRecord.indivIndex = i \<rparr>]\<rparr>"

text \<open>
  The body of the loop of \<^verbatim>\<open>drainDeathQueue\<close> for one record, on the number of deaths
  so far, the individuals and the grid.
\<close>

definition death_step ::
  "DeathRecord \<Rightarrow> nat \<times> Indiv option list \<times> Grid \<Rightarrow> nat \<times> Indiv option list \<times> Grid" where
  "death_step record st =
     (case st of (deaths, inds, g) \<Rightarrow>
        (case peeps_get inds (DeathRecord.indivIndex record) of
           None \<Rightarrow> st
         | Some indiv \<Rightarrow>
             if alive indiv
             then (deaths + 1,
                   inds[DeathRecord.indivIndex record := Some (indiv\<lparr>alive := False\<rparr>)],
                   grid_set g (loc indiv) 0)
             else st))"

definition drainDeathQueue :: "Peeps \<Rightarrow> Grid \<Rightarrow> nat \<times> Peeps \<times> Grid" where
  "drainDeathQueue ps g =
     (case fold death_step (deathQueue ps) (0, individuals ps, g) of
        (deaths, inds, g') \<Rightarrow> (deaths, ps\<lparr>individuals := inds, deathQueue := []\<rparr>, g'))"

text \<open>The body of the loop of \<^verbatim>\<open>drainMoveQueue\<close> for one record.\<close>

definition move_step ::
  "MoveRecord \<Rightarrow> Indiv option list \<times> Grid \<Rightarrow> Indiv option list \<times> Grid" where
  "move_step record st =
     (case st of (inds, g) \<Rightarrow>
        (case peeps_get inds (MoveRecord.indivIndex record) of
           None \<Rightarrow> st
         | Some indiv \<Rightarrow>
             if alive indiv \<and> isInBounds g (newLoc record) \<and> isEmptyAt g (newLoc record)
             then (inds[MoveRecord.indivIndex record := Some (indiv\<lparr>loc := newLoc record\<rparr>)],
                   grid_set (grid_set g (loc indiv) 0) (newLoc record)
                     (int (MoveRecord.indivIndex record)))
             else st))"

definition drainMoveQueue :: "Peeps \<Rightarrow> Grid \<Rightarrow> Peeps \<times> Grid" where
  "drainMoveQueue ps g =
     (case fold move_step (moveQueue ps) (individuals ps, g) of
        (inds, g') \<Rightarrow> (ps\<lparr>individuals := inds, moveQueue := []\<rparr>, g'))"

section \<open>Placing the population (peeps.ts)\<close>

text \<open>
  \<^verbatim>\<open>Peeps.init\<close> and \<^verbatim>\<open>Peeps.initFromGenomes\<close> start from the array that holds
  \<^verbatim>\<open>null\<close> and empty queues and place one individual after the other. \<open>findPlace\<close>
  is their \<^verbatim>\<open>do\<close> loop, which draws a cell until one is empty or 10000 cells have
  been drawn; it returns the last cell, the number of attempts and the generator. After
  10000 attempts the placing stops, also when the last cell drawn is empty.
\<close>

function findPlace :: "Grid \<Rightarrow> PRNG \<Rightarrow> nat \<Rightarrow> Coord \<times> nat \<times> PRNG" where
  "findPlace g p attempts =
     (let (x, p1) = nextInt p (Grid.sizeX g);
          (y, p2) = nextInt p1 (Grid.sizeY g);
          l = \<lparr> cx = x, cy = y \<rparr>;
          attempts' = attempts + 1
      in if \<not> isEmptyAt g l \<and> attempts' < 10000 then findPlace g p2 attempts'
         else (l, attempts', p2))"
  by pat_completeness auto
termination
  by (relation "measure (\<lambda>(g, p, attempts). 10000 - attempts)") auto

declare findPlace.simps [simp del]

text \<open>
  The loop of \<^verbatim>\<open>initFromGenomes\<close> from the counter \<open>i\<close> on, over the genomes that are
  left, and the loop of \<^verbatim>\<open>init\<close> from the index \<open>i\<close> on, for \<open>n\<close> more rounds.
\<close>

fun placeGenomes ::
  "SimParams \<Rightarrow> nat \<Rightarrow> Genome list \<Rightarrow> Indiv option list \<Rightarrow> Grid \<Rightarrow> PRNG \<Rightarrow>
     js_error + (Indiv option list \<times> Grid \<times> PRNG)" where
  "placeGenomes prm i [] inds g p = Inr (inds, g, p)"
| "placeGenomes prm i (gn # gns) inds g p =
     (if \<not> i < population prm then Inr (inds, g, p)
      else
        (case findPlace g p 0 of (l, attempts, p') \<Rightarrow>
           if attempts \<ge> 10000 then Inr (inds, g, p')
           else
             (case createIndiv (i + 1) gn l prm of
                Inl e \<Rightarrow> Inl e
              | Inr indiv \<Rightarrow>
                  placeGenomes prm (i + 1) gns (inds @ [Some indiv])
                    (grid_set g l (int (i + 1))) p')))"

definition initFromGenomes ::
  "Genome list \<Rightarrow> SimParams \<Rightarrow> Grid \<Rightarrow> PRNG \<Rightarrow> js_error + (Peeps \<times> Grid \<times> PRNG)" where
  "initFromGenomes genomes prm g p =
     (case placeGenomes prm 0 genomes [None] g p of
        Inl e \<Rightarrow> Inl e
      | Inr (inds, g', p') \<Rightarrow>
          Inr (\<lparr> individuals = inds, deathQueue = [], moveQueue = [] \<rparr>, g', p'))"

fun initLoop ::
  "SimParams \<Rightarrow> nat \<Rightarrow> nat \<Rightarrow> Indiv option list \<Rightarrow> Grid \<Rightarrow> PRNG \<Rightarrow>
     js_error + (Indiv option list \<times> Grid \<times> PRNG)" where
  "initLoop prm i 0 inds g p = Inr (inds, g, p)"
| "initLoop prm i (Suc n) inds g p =
     (let (genomeLength, p1) =
            nextRange p (genomeInitialLengthMin prm) (genomeInitialLengthMax prm);
          (gn, p2) = makeRandomGenome p1 (nat genomeLength)
      in case findPlace g p2 0 of (l, attempts, p3) \<Rightarrow>
           if attempts \<ge> 10000 then Inr (inds, g, p3)
           else
             (case createIndiv i gn l prm of
                Inl e \<Rightarrow> Inl e
              | Inr indiv \<Rightarrow>
                  initLoop prm (i + 1) n (inds @ [Some indiv]) (grid_set g l (int i)) p3))"

definition Peeps_init :: "SimParams \<Rightarrow> Grid \<Rightarrow> PRNG \<Rightarrow> js_error + (Peeps \<times> Grid \<times> PRNG)" where
  "Peeps_init prm g p =
     (case initLoop prm 1 (population prm) [None] g p of
        Inl e \<Rightarrow> Inl e
      | Inr (inds, g', p') \<Rightarrow>
          Inr (\<lparr> individuals = inds, deathQueue = [], moveQueue = [] \<rparr>, g', p'))"

section \<open>The sensor \<^verbatim>\<open>SIGNAL0_LR\<close> (sensors.ts)\<close>

text \<open>
  The case \<^verbatim>\<open>Sensor.SIGNAL0_LR\<close> of \<^verbatim>\<open>getSensor\<close>. A direction outside the table would
  make \<^verbatim>\<open>coordAdd\<close> read a field of \<^verbatim>\<open>undefined\<close>.
\<close>

definition getSensor_SIGNAL0_LR :: "Indiv \<Rightarrow> Grid \<Rightarrow> Signals \<Rightarrow> SimParams \<Rightarrow> js_error + real" where
  "getSensor_SIGNAL0_LR indiv grid signals params =
     (let fwd = lastMoveDir indiv in
      case (asNormalizedCoord (rotate90CW fwd), asNormalizedCoord (rotate90CCW fwd)) of
        (Some right, Some left) \<Rightarrow>
          (let rLoc = coordAdd (loc indiv) right;
               lLoc = coordAdd (loc indiv) left;
               rSig = (if isInBounds grid rLoc
                       then getSignalDensity signals 0 rLoc (signalSensorRadius params) else 0);
               lSig = (if isInBounds grid lLoc
                       then getSignalDensity signals 0 lLoc (signalSensorRadius params) else 0);
               total = rSig + lSig
           in Inr (if total > 0 then rSig / total else 0.5))
      | _ \<Rightarrow> Inl TypeError)"

text \<open>
  The sensor as the specification words it: the quotient of the values of the two single
  cells, one half when both are zero.
\<close>

definition spec_SIGNAL0_LR :: "Indiv \<Rightarrow> Signals \<Rightarrow> js_error + real" where
  "spec_SIGNAL0_LR indiv signals =
     (let fwd = lastMoveDir indiv in
      case (asNormalizedCoord (rotate90CW fwd), asNormalizedCoord (rotate90CCW fwd)) of
        (Some right, Some left) \<Rightarrow>
          (let r = real_of_int (sig_get signals 0 (coordAdd (loc indiv) right));
               l = real_of_int (sig_get signals 0 (coordAdd (loc indiv) left))
           in Inr (if r = 0 \<and> l = 0 then 0.5 else r / (r + l)))
      | _ \<Rightarrow> Inl TypeError)"

section \<open>Actions (actions.ts)\<close>

text \<open>
  The action levels are the 17 numbers that \<^verbatim>\<open>feedForward\<close> returns; the sums of the
  movement are doubles in the source and reals here. The state of the loop over the
  actions is the two sums, the individual, and the signals, the population and the
  generator of the context. The grid of the context is only read.
\<close>

definition coordToCompass :: "int \<Rightarrow> int \<Rightarrow> int" where
  "coordToCompass dx dy =
     (if dx = 0 \<and> dy = - 1 then Compass_N
      else if dx = 1 \<and> dy = - 1 then Compass_NE
      else if dx = 1 \<and> dy = 0 then Compass_E
      else if dx = 1 \<and> dy = 1 then Compass_SE
      else if dx = 0 \<and> dy = 1 then Compass_S
      else if dx = - 1 \<and> dy = 1 then Compass_SW
      else if dx = - 1 \<and> dy = 0 then Compass_W
      else if dx = - 1 \<and> dy = - 1 then Compass_NW
      else Compass_CENTER)"

record ActState =
  moveX :: real
  moveY :: real
  act_indiv :: Indiv
  act_signals :: Signals
  act_peeps :: Peeps
  act_rng :: PRNG

definition fires :: "real \<Rightarrow> real \<Rightarrow> bool" where
  "fires level threshold \<longleftrightarrow> \<bar>level\<bar> > threshold * 0.5"

text \<open>Adding a unit offset of a direction to the sums, times a factor.\<close>

definition add_move :: "Dir \<Rightarrow> real \<Rightarrow> ActState \<Rightarrow> js_error + ActState" where
  "add_move d factor st =
     (case asNormalizedCoord d of
        None \<Rightarrow> Inl TypeError
      | Some c \<Rightarrow>
          Inr (st\<lparr>moveX := moveX st + real_of_int (cx c) * factor,
                  moveY := moveY st + real_of_int (cy c) * factor\<rparr>))"

text \<open>One case of the \<^verbatim>\<open>switch\<close>, for the action with number \<open>a\<close>.\<close>

definition actionStep ::
  "Grid \<Rightarrow> SimParams \<Rightarrow> real \<Rightarrow> nat \<Rightarrow> real \<Rightarrow> ActState \<Rightarrow> js_error + ActState" where
  "actionStep g prm threshold a level st =
     (let indiv = act_indiv st in
      if a = 0 then Inr (st\<lparr>moveX := moveX st + level\<rparr>)
      else if a = 1 then Inr (st\<lparr>moveY := moveY st + level\<rparr>)
      else if a = 2 then
        (if fires level threshold then add_move (lastMoveDir indiv) level st else Inr st)
      else if a = 3 then
        (if fires level threshold
         then add_move (if level > 0 then rotate90CW (lastMoveDir indiv)
                        else rotate90CCW (lastMoveDir indiv)) 1 st
         else Inr st)
      else if a = 4 then
        (if fires level threshold
         then (let (r, p) = next01 (act_rng st)
               in add_move \<lparr> dir9 = \<lfloor>r * 8\<rfloor> \<rparr> 1 (st\<lparr>act_rng := p\<rparr>))
         else Inr st)
      else if a = 5 then
        Inr (st\<lparr>act_indiv := indiv\<lparr>oscPeriod := max 2 (1 + \<lfloor>\<bar>level\<bar> * 100\<rfloor>)\<rparr>\<rparr>)
      else if a = 6 then
        Inr (st\<lparr>act_indiv := indiv\<lparr>longProbeDist :=
               max 1 (1 + \<lfloor>\<bar>level\<bar> * real_of_int (longProbeDistance prm)\<rfloor>)\<rparr>\<rparr>)
      else if a = 7 then
        Inr (st\<lparr>act_indiv := indiv\<lparr>responsiveness := (level + 1) / 2\<rparr>\<rparr>)
      else if a = 8 then
        (if fires level threshold
         then Inr (st\<lparr>act_signals := emit (act_signals st) 0 (loc indiv) 1.5\<rparr>)
         else Inr st)
      else if a = 9 then
        (if killEnable prm \<and> fires level threshold then
           (case asNormalizedCoord (lastMoveDir indiv) of
              None \<Rightarrow> Inl TypeError
            | Some fwd \<Rightarrow>
                (let targetLoc = coordAdd (loc indiv) fwd in
                 if isInBounds g targetLoc \<and> isOccupiedAt g targetLoc then
                   (case grid_at g targetLoc of
                      None \<Rightarrow> Inr st
                    | Some targetIdx \<Rightarrow>
                        (case peeps_get (individuals (act_peeps st)) (unat targetIdx) of
                           None \<Rightarrow> Inr st
                         | Some target \<Rightarrow>
                             if alive target
                             then Inr (st\<lparr>act_peeps := queueDeath (act_peeps st) (unat targetIdx)\<rparr>)
                             else Inr st))
                 else Inr st))
         else Inr st)
      else if a = 10 then
        (if fires level threshold then Inr (st\<lparr>moveX := moveX st + 1\<rparr>) else Inr st)
      else if a = 11 then
        (if fires level threshold then Inr (st\<lparr>moveX := moveX st - 1\<rparr>) else Inr st)
      else if a = 12 then
        (if fires level threshold then Inr (st\<lparr>moveY := moveY st - 1\<rparr>) else Inr st)
      else if a = 13 then
        (if fires level threshold then Inr (st\<lparr>moveY := moveY st + 1\<rparr>) else Inr st)
      else if a = 14 then
        (if fires level threshold then add_move (rotate90CCW (lastMoveDir indiv)) 1 st else Inr st)
      else if a = 15 then
        (if fires level threshold then add_move (rotate90CW (lastMoveDir indiv)) 1 st else Inr st)
      else if a = 16 then
        (if fires level threshold then add_move (rotate180 (lastMoveDir indiv)) 1 st else Inr st)
      else Inr st)"

text \<open>The loop \<^verbatim>\<open>for (a = 0; a < NUM_ACTIONS; a++)\<close> over a list of action numbers.\<close>

fun runActions ::
  "Grid \<Rightarrow> SimParams \<Rightarrow> real \<Rightarrow> (nat \<Rightarrow> real) \<Rightarrow> nat list \<Rightarrow> ActState \<Rightarrow> js_error + ActState" where
  "runActions g prm threshold levels [] st = Inr st"
| "runActions g prm threshold levels (a # as) st =
     (case actionStep g prm threshold a (levels a) st of
        Inl e \<Rightarrow> Inl e
      | Inr st' \<Rightarrow> runActions g prm threshold levels as st')"

definition executeActions ::
  "Indiv \<Rightarrow> (nat \<Rightarrow> real) \<Rightarrow> Grid \<Rightarrow> Signals \<Rightarrow> Peeps \<Rightarrow> SimParams \<Rightarrow> PRNG \<Rightarrow>
     js_error + (Indiv \<times> Signals \<times> Peeps \<times> PRNG)" where
  "executeActions indiv actionLevels g sg ps prm p =
     (let responsiveness = responsivenessCurve (Indiv.responsiveness indiv)
                             (responsivenessCurveKFactor prm)
      in case runActions g prm responsiveness actionLevels [0..<17]
                \<lparr> moveX = 0, moveY = 0, act_indiv = indiv, act_signals = sg,
                  act_peeps = ps, act_rng = p \<rparr> of
           Inl e \<Rightarrow> Inl e
         | Inr st \<Rightarrow>
             (let dx = (if moveX st > 0.5 then 1 else if moveX st < - 0.5 then - 1 else (0::int));
                  dy = (if moveY st > 0.5 then 1 else if moveY st < - 0.5 then - 1 else (0::int));
                  indiv = act_indiv st
              in if dx \<noteq> 0 \<or> dy \<noteq> 0 then
                   (let newLoc = \<lparr> cx = cx (loc indiv) + dx, cy = cy (loc indiv) + dy \<rparr> in
                    if isInBounds g newLoc \<and> isEmptyAt g newLoc
                    then Inr (indiv\<lparr>lastMoveDir := \<lparr> dir9 = coordToCompass dx dy \<rparr>\<rparr>,
                              act_signals st,
                              queueMove (act_peeps st) (index indiv) newLoc,
                              act_rng st)
                    else Inr (indiv, act_signals st, act_peeps st, act_rng st))
                 else Inr (indiv, act_signals st, act_peeps st, act_rng st)))"

section \<open>Spawning the next generation (spawn.ts)\<close>

text \<open>
  \<^verbatim>\<open>selectParent\<close> returns an element of \<^verbatim>\<open>survivors\<close>; the model returns its
  position. The survivors are the individuals that \<^verbatim>\<open>getSurvivors\<close> filters out of
  the population array, each once, so the identity test \<^verbatim>\<open>parent2 === parent1\<close> is
  equality of positions. \<^verbatim>\<open>spawnNewGeneration\<close> calls it on a list that is not empty,
  where \<^verbatim>\<open>nextInt\<close> keeps the position in range.
\<close>

definition selectParent :: "Indiv list \<Rightarrow> SimParams \<Rightarrow> PRNG \<Rightarrow> nat \<times> PRNG" where
  "selectParent survivors params p =
     (if \<not> chooseParentsByFitness params \<or> length survivors \<le> 1 then
        (let (i, p1) = nextInt p (int (length survivors)) in (nat i, p1))
      else
        (let (ia, p1) = nextInt p (int (length survivors));
             (ib, p2) = nextInt p1 (int (length survivors));
             a = survivors ! nat ia;
             b = survivors ! nat ib;
             centerX = real_of_int (SimParams.sizeX params) / 2;
             centerY = real_of_int (SimParams.sizeY params) / 2;
             distA = \<bar>real_of_int (cx (loc a)) - centerX\<bar> + \<bar>real_of_int (cy (loc a)) - centerY\<bar>;
             distB = \<bar>real_of_int (cx (loc b)) - centerX\<bar> + \<bar>real_of_int (cy (loc b)) - centerY\<bar>
         in (if distA \<le> distB then nat ia else nat ib, p2)))"

text \<open>
  The loop \<^verbatim>\<open>while (parent2 === parent1 && attempts < 10)\<close>; the first argument
  counts the attempts that are left.
\<close>

fun retryParent ::
  "nat \<Rightarrow> Indiv list \<Rightarrow> SimParams \<Rightarrow> nat \<Rightarrow> nat \<Rightarrow> PRNG \<Rightarrow> nat \<times> PRNG" where
  "retryParent 0 survivors params parent1 parent2 p = (parent2, p)"
| "retryParent (Suc k) survivors params parent1 parent2 p =
     (if parent2 = parent1 then
        (let (parent2', p1) = selectParent survivors params p
         in retryParent k survivors params parent1 parent2' p1)
      else (parent2, p))"

text \<open>The body of the offspring loop: one child genome.\<close>

definition spawnChild :: "Indiv list \<Rightarrow> SimParams \<Rightarrow> PRNG \<Rightarrow> Genome \<times> PRNG" where
  "spawnChild survivors params p =
     (let (childGenome, p3) =
            (if sexualReproduction params \<and> length survivors \<ge> 2 then
               (let (parent1, p1) = selectParent survivors params p;
                    (parent2, p2) = selectParent survivors params p1;
                    (parent2, p2) = retryParent 10 survivors params parent1 parent2 p2
                in crossover (genome (survivors ! parent1)) (genome (survivors ! parent2)) p2)
             else
               (let (parent, p1) = selectParent survivors params p
                in (genome (survivors ! parent), p1)));
          (childGenome, p4) = applyPointMutations childGenome p3 (pointMutationRate params)
      in applyInsertionDeletion childGenome p4 (geneInsertionDeletionRate params)
           (deletionRatio params) (genomeMaxLength params))"

fun spawnChildren :: "nat \<Rightarrow> Indiv list \<Rightarrow> SimParams \<Rightarrow> PRNG \<Rightarrow> Genome list \<times> PRNG" where
  "spawnChildren 0 survivors params p = ([], p)"
| "spawnChildren (Suc n) survivors params p =
     (let (child, p1) = spawnChild survivors params p;
          (rest, p2) = spawnChildren n survivors params p1
      in (child # rest, p2))"

fun spawnRandom :: "nat \<Rightarrow> SimParams \<Rightarrow> PRNG \<Rightarrow> Genome list \<times> PRNG" where
  "spawnRandom 0 params p = ([], p)"
| "spawnRandom (Suc n) params p =
     (let (len, p1) = nextRange p (genomeInitialLengthMin params) (genomeInitialLengthMax params);
          (g, p2) = makeRandomGenome p1 (nat len);
          (rest, p3) = spawnRandom n params p2
      in (g # rest, p3))"

definition spawnNewGeneration :: "Indiv list \<Rightarrow> SimParams \<Rightarrow> PRNG \<Rightarrow> Genome list \<times> PRNG" where
  "spawnNewGeneration survivors params p =
     (if length survivors = 0 then spawnRandom (population params) params p
      else spawnChildren (population params) survivors params p)"

section \<open>One step of the simulator (simulator.ts)\<close>

text \<open>
  The state of the simulator that a step reads and writes. The statistics, the history
  and the colour cache are not touched by a step.
\<close>

record Simulator =
  params :: SimParams
  grid :: Grid
  peeps :: Peeps
  signals :: Signals
  rng :: PRNG
  generation :: int
  simStep :: int
  killDeaths :: nat

text \<open>
  \<^verbatim>\<open>simStepIndiv\<close> evaluates the 21 sensors and feeds them through the network, in
  single and double precision with \<^verbatim>\<open>tanh\<close> and \<^verbatim>\<open>sin\<close>. It reads the grid, the signals
  and the population; it writes the outputs of the individual's neurons and, for the
  sensor \<^verbatim>\<open>RANDOM\<close>, the generator. The model takes it as a function of that shape,
  the first argument of \<open>stepOnce\<close>: from the state and the individual to the action
  levels, the individual's network and the generator.

  The body of the loop over the population for the slot \<open>i\<close>.
\<close>

definition stepIndiv ::
  "(Simulator \<Rightarrow> Indiv \<Rightarrow> (nat \<Rightarrow> real) \<times> NeuralNet \<times> PRNG) \<Rightarrow> nat \<Rightarrow> Simulator \<Rightarrow>
     js_error + Simulator" where
  "stepIndiv simStepIndiv i sim =
     (case peeps_get (individuals (peeps sim)) i of
        None \<Rightarrow> Inr sim
      | Some indiv \<Rightarrow>
          if \<not> alive indiv then Inr sim
          else
            (case simStepIndiv sim indiv of (actionLevels, net, p) \<Rightarrow>
               (case executeActions (indiv\<lparr>nnet := net\<rparr>) actionLevels (grid sim) (signals sim)
                       (peeps sim) (params sim) p of
                  Inl e \<Rightarrow> Inl e
                | Inr (indiv', sg, ps, p') \<Rightarrow>
                    Inr (sim\<lparr>peeps := ps\<lparr>individuals :=
                                 (individuals ps)[i := Some (indiv'\<lparr>age := age indiv' + 1\<rparr>)]\<rparr>,
                             signals := sg, rng := p'\<rparr>))))"

fun stepIndividuals ::
  "(Simulator \<Rightarrow> Indiv \<Rightarrow> (nat \<Rightarrow> real) \<times> NeuralNet \<times> PRNG) \<Rightarrow> nat list \<Rightarrow> Simulator \<Rightarrow>
     js_error + Simulator" where
  "stepIndividuals simStepIndiv [] sim = Inr sim"
| "stepIndividuals simStepIndiv (i # is) sim =
     (case stepIndiv simStepIndiv i sim of
        Inl e \<Rightarrow> Inl e
      | Inr sim' \<Rightarrow> stepIndividuals simStepIndiv is sim')"

text \<open>
  The end of the step: the deaths, then the moves, then the fading of every layer, then
  the step counter.
\<close>

definition endOfStep :: "Simulator \<Rightarrow> Simulator" where
  "endOfStep sim =
     (case drainDeathQueue (peeps sim) (grid sim) of (deaths, ps1, g1) \<Rightarrow>
        (case drainMoveQueue ps1 g1 of (ps2, g2) \<Rightarrow>
           sim\<lparr>killDeaths := killDeaths sim + deaths, peeps := ps2, grid := g2,
               signals := fold (\<lambda>layer s. fade s layer) [0..<signalLayers (params sim)] (signals sim),
               simStep := simStep sim + 1\<rparr>))"

definition stepOnce ::
  "(Simulator \<Rightarrow> Indiv \<Rightarrow> (nat \<Rightarrow> real) \<times> NeuralNet \<times> PRNG) \<Rightarrow> Simulator \<Rightarrow>
     js_error + Simulator" where
  "stepOnce simStepIndiv sim =
     (case stepIndividuals simStepIndiv [1..<Suc (getPopulationSize (peeps sim))] sim of
        Inl e \<Rightarrow> Inl e
      | Inr sim' \<Rightarrow> Inr (endOfStep sim'))"

section \<open>Predicates and inputs of the properties\<close>

text \<open>
  The ids of a connection that name a neuron are indices of an array of \<open>n\<close> neurons.
\<close>

definition ids_in_range :: "nat \<Rightarrow> NeuralConnection \<Rightarrow> bool" where
  "ids_in_range n c \<longleftrightarrow>
     (sinkType c = NEURON \<longrightarrow> 0 \<le> sinkId c \<and> sinkId c < int n) \<and>
     (sourceType c = NEURON \<longrightarrow> 0 \<le> sourceId c \<and> sourceId c < int n)"

text \<open>
  A connection is kept by a pruning pass unless its source is a neuron that is not
  driven; a neuron is fed by a list of connections when one of them has it as sink.
\<close>

definition keeps :: "Neuron list \<Rightarrow> NeuralConnection \<Rightarrow> bool" where
  "keeps ns c \<longleftrightarrow> \<not> (sourceType c = NEURON \<and> \<not> driven (ns ! nat (sourceId c)))"

definition feeds :: "NeuralConnection list \<Rightarrow> nat \<Rightarrow> bool" where
  "feeds cs i \<longleftrightarrow> (\<exists>c \<in> set cs. sinkType c = NEURON \<and> sinkId c = int i)"


text \<open>
  Two survivors with genomes of two genes each and a configuration that allows genomes
  of at most two genes, with sexual reproduction and no mutation.
\<close>

definition crossover_params :: SimParams where
  "crossover_params = \<lparr> population = 1, stepsPerGeneration = 300, sizeX = 8, sizeY = 8,
      genomeInitialLengthMin = 2, genomeInitialLengthMax = 2, genomeMaxLength = 2,
      maxNumberNeurons = 1, pointMutationRate = 0, geneInsertionDeletionRate = 0,
      deletionRatio = 0.5, sexualReproduction = True, chooseParentsByFitness = False,
      responsivenessCurveKFactor = 2, signalLayers = 1, signalSensorRadius = 2,
      longProbeDistance = 16, shortProbeBarrierDistance = 4, killEnable = False,
      rngSeed = 1, populationSensorRadius = 2 \<rparr>"

definition crossover_survivors :: "Indiv list" where
  "crossover_survivors =
     (case (createIndiv 1 [uint32ToGene 1, uint32ToGene 2] \<lparr>cx = 0, cy = 0\<rparr> crossover_params,
            createIndiv 2 [uint32ToGene 3, uint32ToGene 4] \<lparr>cx = 1, cy = 0\<rparr> crossover_params)
      of (Inr a, Inr b) \<Rightarrow> [a, b] | _ \<Rightarrow> [])"


text \<open>
  The shape of every \<^verbatim>\<open>Signals\<close> value: as many layers as \<^verbatim>\<open>numLayers\<close> says, each
  of \<^verbatim>\<open>sizeX * sizeY\<close> cells, each cell a byte.
\<close>

definition signals_ok :: "Signals \<Rightarrow> bool" where
  "signals_ok s \<longleftrightarrow>
     length (layers s) = numLayers s \<and>
     (\<forall>L \<in> set (layers s). length L = nat (Signals.sizeX s * Signals.sizeY s) \<and>
        (\<forall>v \<in> set L. 0 \<le> v \<and> v \<le> 255))"

text \<open>
  The offsets that the two loops of \<^verbatim>\<open>emit\<close> reach and that pass its test, and the
  amount that it passes to \<^verbatim>\<open>increment\<close> for them.
\<close>

definition in_emit_range :: "real \<Rightarrow> int \<Rightarrow> int \<Rightarrow> bool" where
  "in_emit_range radius dx dy \<longleftrightarrow>
     - \<lfloor>radius\<rfloor> \<le> dx \<and> dx \<le> \<lfloor>radius\<rfloor> \<and> - \<lfloor>radius\<rfloor> \<le> dy \<and> dy \<le> \<lfloor>radius\<rfloor> \<and>
     real_of_int (dx * dx + dy * dy) \<le> dbl (radius * radius)"

definition emit_amount :: "real \<Rightarrow> int \<Rightarrow> int \<Rightarrow> int" where
  "emit_amount radius dx dy =
     max 1 (round (dbl (255 * dbl (1 - dbl (dbl (sqrt (real_of_int (dx * dx + dy * dy))) /
                                            dbl (radius + 1))))))"


text \<open>
  An individual in the middle of a 3 by 3 world that last moved north, a signal layer
  whose only cell that is not zero is the north-east corner, and the default
  parameters with the signal sensor radius left open.
\<close>

definition lr_indiv :: Indiv where
  "lr_indiv =
     \<lparr> index = 1, alive = True, loc = \<lparr> cx = 1, cy = 1 \<rparr>, birthLoc = \<lparr> cx = 1, cy = 1 \<rparr>,
       lastMoveDir = \<lparr> dir9 = Compass_N \<rparr>, genome = [uint32ToGene 0x80000000],
       nnet = \<lparr> connections = [\<lparr> sourceType = 1, sourceId = 0, sinkType = 0, sinkId = 0,
                                  weight = 0 \<rparr>],
                 neurons = [\<lparr> output = 1 / 2, driven = True \<rparr>] \<rparr>,
       age = 0, responsiveness = 1 / 2, oscPeriod = 34, longProbeDist = 16,
       challengeBits = 0, lastDirection = \<lparr> dir9 = Compass_CENTER \<rparr> \<rparr>"

definition lr_signals :: Signals where
  "lr_signals = \<lparr> Signals.sizeX = 3, sizeY = 3, numLayers = 1,
       layers = [[0, 0, 255, 0, 0, 0, 0, 0, 0]] \<rparr>"

definition lr_params :: "real \<Rightarrow> SimParams" where
  "lr_params radius = \<lparr> population = 1, stepsPerGeneration = 300, sizeX = 3, sizeY = 3,
      genomeInitialLengthMin = 1, genomeInitialLengthMax = 1, genomeMaxLength = 300,
      maxNumberNeurons = 1, pointMutationRate = 0.001, geneInsertionDeletionRate = 0.0005,
      deletionRatio = 0.5, sexualReproduction = True, chooseParentsByFitness = True,
      responsivenessCurveKFactor = 2, signalLayers = 1, signalSensorRadius = radius,
      longProbeDistance = 16, shortProbeBarrierDistance = 4, killEnable = False,
      rngSeed = 12345678, populationSensorRadius = 2 \<rparr>"



text \<open>
  The consistency of the grid with the population, which \<^verbatim>\<open>Peeps.init\<close> and
  \<^verbatim>\<open>spawnNewGeneration\<close> set up: the grid has \<^verbatim>\<open>sizeX * sizeY\<close> cells; every living
  individual stands inside the grid on the cell that holds its index, and its index is
  neither 0 nor the barrier value \<^verbatim>\<open>0xFFFF\<close>; every \<^verbatim>\<open>lastMoveDir\<close> is one of the nine
  compass values.
\<close>

definition grid_ok :: "Grid \<Rightarrow> bool" where
  "grid_ok g \<longleftrightarrow> length (data g) = nat (Grid.sizeX g * Grid.sizeY g)"

definition on_grid :: "Indiv option list \<Rightarrow> Grid \<Rightarrow> bool" where
  "on_grid inds g \<longleftrightarrow>
     (\<forall>i < length inds. \<forall>ind. inds ! i = Some ind \<and> alive ind \<longrightarrow>
        isInBounds g (loc ind) \<and> grid_at g (loc ind) = Some (word_of_nat i) \<and>
        0 < i \<and> i < 65535)"

definition dirs_ok :: "Indiv option list \<Rightarrow> bool" where
  "dirs_ok inds \<longleftrightarrow>
     (\<forall>i < length inds. \<forall>ind. inds ! i = Some ind \<longrightarrow>
        0 \<le> dir9 (lastMoveDir ind) \<and> dir9 (lastMoveDir ind) \<le> 8)"

definition sim_inv :: "Simulator \<Rightarrow> bool" where
  "sim_inv sim \<longleftrightarrow>
     grid_ok (grid sim) \<and> on_grid (individuals (peeps sim)) (grid sim) \<and>
     dirs_ok (individuals (peeps sim))"

text \<open>Every cell that holds the barrier value in \<open>g\<close> holds it in \<open>g'\<close>.\<close>

definition barriers_kept :: "Grid \<Rightarrow> Grid \<Rightarrow> bool" where
  "barriers_kept g g' \<longleftrightarrow>
     length (data g') = length (data g) \<and>
     (\<forall>i < length (data g). data g ! i = BARRIER \<longrightarrow> data g' ! i = BARRIER)"

text \<open>
  What the grid invariant reads of the population, and what the loop over the actions
  leaves as it is.
\<close>

definition places :: "Indiv option list \<Rightarrow> (bool \<times> Coord) option list" where
  "places inds = map (map_option (\<lambda>ind. (alive ind, loc ind))) inds"

definition act_kept :: "ActState \<Rightarrow> ActState \<Rightarrow> bool" where
  "act_kept st st' \<longleftrightarrow>
     individuals (act_peeps st') = individuals (act_peeps st) \<and>
     moveQueue (act_peeps st') = moveQueue (act_peeps st) \<and>
     loc (act_indiv st') = loc (act_indiv st) \<and>
     alive (act_indiv st') = alive (act_indiv st) \<and>
     lastMoveDir (act_indiv st') = lastMoveDir (act_indiv st)"

text \<open>
  A world of three cells in a row: individual 1 on the first, individual 2 on the
  second, a barrier on the third. Individual 2 is queued to die and individual 1 is
  queued to move onto the cell of individual 2. The brain that drives every individual
  east, with the action \<^verbatim>\<open>MOVE_EAST\<close> at level 1.
\<close>

definition queue_agent :: "nat \<Rightarrow> Coord \<Rightarrow> Indiv" where
  "queue_agent i l =
     \<lparr> index = i, alive = True, loc = l, birthLoc = l,
       lastMoveDir = \<lparr> dir9 = Compass_CENTER \<rparr>, genome = [uint32ToGene 1],
       nnet = \<lparr> connections = [], neurons = [\<lparr> output = 1 / 2, driven = False \<rparr>] \<rparr>,
       age = 0, responsiveness = 1 / 2, oscPeriod = 34, longProbeDist = 16,
       challengeBits = 0, lastDirection = \<lparr> dir9 = Compass_CENTER \<rparr> \<rparr>"

definition queue_sim :: Simulator where
  "queue_sim =
     \<lparr> params = \<lparr> population = 2, stepsPerGeneration = 300, sizeX = 3, sizeY = 1,
          genomeInitialLengthMin = 1, genomeInitialLengthMax = 1, genomeMaxLength = 300,
          maxNumberNeurons = 1, pointMutationRate = 0.001,
          geneInsertionDeletionRate = 0.0005, deletionRatio = 0.5,
          sexualReproduction = True, chooseParentsByFitness = True,
          responsivenessCurveKFactor = 2, signalLayers = 1, signalSensorRadius = 2,
          longProbeDistance = 16, shortProbeBarrierDistance = 4, killEnable = True,
          rngSeed = 1, populationSensorRadius = 2 \<rparr>,
       grid = \<lparr> Grid.sizeX = 3, sizeY = 1, data = [1, 2, BARRIER] \<rparr>,
       peeps = \<lparr> individuals = [None, Some (queue_agent 1 \<lparr> cx = 0, cy = 0 \<rparr>),
                                 Some (queue_agent 2 \<lparr> cx = 1, cy = 0 \<rparr>)],
                 deathQueue = [\<lparr> DeathRecord.indivIndex = 2 \<rparr>],
                 moveQueue = [\<lparr> MoveRecord.indivIndex = 1, newLoc = \<lparr> cx = 1, cy = 0 \<rparr> \<rparr>] \<rparr>,
       signals = Signals_new 3 1 1, rng = PRNG_new 1,
       generation = 0, simStep = 0, killDeaths = 0 \<rparr>"

definition east_brain :: "Simulator \<Rightarrow> Indiv \<Rightarrow> (nat \<Rightarrow> real) \<times> NeuralNet \<times> PRNG" where
  "east_brain sim indiv = (\<lambda>a. if a = 10 then 1 else 0, nnet indiv, rng sim)"


text \<open>
  Populations whose indices do not fit the 16 bits of a grid cell, in a world of two
  cells in a row. All individuals but the named ones are dead. In the first, the
  individual 65535 stands on the first cell, which holds its index: the value
  \<^verbatim>\<open>0xFFFF\<close> of a barrier; the queues are empty. In the second, the individual 65536
  stands on the first cell, which holds its index as 16 bits: 0, the value of an empty
  cell; the individual 1 stands on the second cell and is queued to move onto the first.
\<close>

definition dead_slots :: "nat \<Rightarrow> nat \<Rightarrow> Indiv option list" where
  "dead_slots a b =
     map (\<lambda>i. Some ((queue_agent i \<lparr> cx = 0, cy = 0 \<rparr>)\<lparr>alive := False\<rparr>)) [a..<b]"


definition step_params :: "nat \<Rightarrow> SimParams" where
  "step_params n =
     \<lparr> population = n, stepsPerGeneration = 300, sizeX = 2, sizeY = 1,
       genomeInitialLengthMin = 1, genomeInitialLengthMax = 1, genomeMaxLength = 300,
       maxNumberNeurons = 1, pointMutationRate = 0.001,
       geneInsertionDeletionRate = 0.0005, deletionRatio = 0.5,
       sexualReproduction = True, chooseParentsByFitness = True,
       responsivenessCurveKFactor = 2, signalLayers = 1, signalSensorRadius = 2,
       longProbeDistance = 16, shortProbeBarrierDistance = 4, killEnable = True,
       rngSeed = 1, populationSensorRadius = 2 \<rparr>"


definition barrier_index_sim :: Simulator where
  "barrier_index_sim =
     \<lparr> params = step_params 65535,
       grid = \<lparr> Grid.sizeX = 2, sizeY = 1, data = [word_of_nat 65535, 0] \<rparr>,
       peeps = \<lparr> individuals = None # dead_slots 1 65535 @
                                 [Some (queue_agent 65535 \<lparr> cx = 0, cy = 0 \<rparr>)],
                 deathQueue = [], moveQueue = [] \<rparr>,
       signals = Signals_new 2 1 1, rng = PRNG_new 1,
       generation = 0, simStep = 0, killDeaths = 0 \<rparr>"


definition wrapped_index_sim :: Simulator where
  "wrapped_index_sim =
     \<lparr> params = step_params 65536,
       grid = \<lparr> Grid.sizeX = 2, sizeY = 1, data = [word_of_nat 65536, 1] \<rparr>,
       peeps = \<lparr> individuals = None # Some (queue_agent 1 \<lparr> cx = 1, cy = 0 \<rparr>) #
                                 dead_slots 2 65536 @
                                 [Some (queue_agent 65536 \<lparr> cx = 0, cy = 0 \<rparr>)],
                 deathQueue = [],
                 moveQueue = [\<lparr> MoveRecord.indivIndex = 1, newLoc = \<lparr> cx = 0, cy = 0 \<rparr> \<rparr>] \<rparr>,
       signals = Signals_new 2 1 1, rng = PRNG_new 1,
       generation = 0, simStep = 0, killDeaths = 0 \<rparr>"
section \<open>Properties of the gene codec\<close>

lemma mask1_u32: "(1::u32) = mask 1"
  by simp

lemma mask7_u32: "(0x7F::u32) = mask 7"
  by (simp add: mask_eq_exp_minus_1)

lemma mask16_u32: "(0xFFFF::u32) = mask 16"
  by (simp add: mask_eq_exp_minus_1)

lemma bit_and_mask_u32: "bit ((x::u32) AND mask k) n \<longleftrightarrow> n < k \<and> bit x n"
  by (auto simp: bit_and_iff bit_mask_iff dest: bit_imp_le_length)

lemma bit_and1: "bit ((x::u32) AND 1) n \<longleftrightarrow> n < 1 \<and> bit x n"
  using bit_and_mask_u32 [of x 1 n] by (simp only: mask1_u32)

lemma bit_and7: "bit ((x::u32) AND 0x7F) n \<longleftrightarrow> n < 7 \<and> bit x n"
  using bit_and_mask_u32 [of x 7 n] by (simp only: mask7_u32)

lemma bit_and16: "bit ((x::u32) AND 0xFFFF) n \<longleftrightarrow> n < 16 \<and> bit x n"
  using bit_and_mask_u32 [of x 16 n] by (simp only: mask16_u32)

lemma uint_and16: "uint ((x::u32) AND 0xFFFF) = take_bit 16 (uint x)"
  by (rule bit_eqI) (auto simp only: bit_uint_iff bit_and16 bit_take_bit_iff)

text \<open>Bit 15 decides on which side of \<open>0x7FFF\<close> the low half lies.\<close>

lemma bit15_iff: "bit (k::int) 15 \<longleftrightarrow> take_bit 16 k > 0x7FFF"
proof -
  have e: "take_bit 16 k = take_bit 15 k + 2 ^ 15 * of_bool (bit k 15)"
    using take_bit_Suc_from_most [of 15 k] by simp
  have u: "take_bit 15 k < 32768"
    using take_bit_int_less_exp [of 15 k] by simp
  have l: "0 \<le> take_bit 15 k"
    by simp
  show ?thesis
  proof (cases "bit k 15")
    case True
    with e have "take_bit 16 k = take_bit 15 k + 32768" by simp
    with l True show ?thesis by linarith
  next
    case False
    with e have "take_bit 16 k = take_bit 15 k" by simp
    with u False show ?thesis by linarith
  qed
qed

lemma weight_signed:
  "(if take_bit 16 k > (0x7FFF::int) then take_bit 16 k - 0x10000 else take_bit 16 k)
     = signed_take_bit 15 k"
  using bit15_iff [of k] by (simp add: signed_take_bit_eq_take_bit_minus)

lemma weightAsInt_uint32ToGene:
  "weightAsInt (uint32ToGene val) = signed_take_bit 15 (uint val)"
  unfolding uint32ToGene_def by (simp only: uint_and16 weight_signed Gene.simps)

lemma bit_geneToUint32:
  "bit (geneToUint32 g) n \<longleftrightarrow> n < 32 \<and>
     (if n = 31 then bit (Gene.sourceType g) 0
      else if 24 \<le> n then bit (Gene.sourceId g) (n - 24)
      else if n = 23 then bit (Gene.sinkType g) 0
      else if 16 \<le> n then bit (Gene.sinkId g) (n - 16)
      else bit (weightAsInt g) n)"
  unfolding geneToUint32_def
  apply (simp only: bit_or_iff bit_push_bit_iff bit_and1 bit_and7 bit_and16 bit_word_of_int_iff)
  apply auto
  done

lemma pack_unpack: "geneToUint32 (uint32ToGene w) = w"
proof (rule bit_word_eqI)
  fix n assume "n < LENGTH(32)"
  then have n: "n < 32" by simp
  show "bit (geneToUint32 (uint32ToGene w)) n = bit w n"
    unfolding bit_geneToUint32 weightAsInt_uint32ToGene
    unfolding uint32ToGene_def
    using n
    apply (simp only: Gene.simps bit_uint_iff bit_and1 bit_and7 bit_drop_bit_eq
        bit_signed_take_bit_iff)
    apply (auto simp: min_def)
     apply (subgoal_tac "n = 15", simp, arith)+
    done
qed

lemma unpack_pack:
  assumes "gene_in_range g"
  shows "uint32ToGene (geneToUint32 g) = g"
proof -
  let ?W = "geneToUint32 g"
  have st: "take_bit 1 (Gene.sourceType g) = Gene.sourceType g"
   and si: "take_bit 7 (Gene.sourceId g) = Gene.sourceId g"
   and kt: "take_bit 1 (Gene.sinkType g) = Gene.sinkType g"
   and ki: "take_bit 7 (Gene.sinkId g) = Gene.sinkId g"
   and wt: "signed_take_bit 15 (weightAsInt g) = weightAsInt g"
    using assms unfolding gene_in_range_def
    by (simp_all add: take_bit_int_eq_self signed_take_bit_int_eq_self)
  have 1: "uint (drop_bit 31 ?W AND 1) = take_bit 1 (Gene.sourceType g)"
    by (rule bit_eqI)
      (auto simp add: bit_uint_iff bit_and1 bit_drop_bit_eq bit_geneToUint32
        bit_take_bit_iff bit_0 split: if_splits)
  have 2: "uint (drop_bit 24 ?W AND 0x7F) = take_bit 7 (Gene.sourceId g)"
    by (rule bit_eqI)
      (auto simp add: bit_uint_iff bit_and7 bit_drop_bit_eq bit_geneToUint32
        bit_take_bit_iff split: if_splits)
  have 3: "uint (drop_bit 23 ?W AND 1) = take_bit 1 (Gene.sinkType g)"
    by (rule bit_eqI)
      (auto simp add: bit_uint_iff bit_and1 bit_drop_bit_eq bit_geneToUint32
        bit_take_bit_iff bit_0 split: if_splits)
  have 4: "uint (drop_bit 16 ?W AND 0x7F) = take_bit 7 (Gene.sinkId g)"
    by (rule bit_eqI)
      (auto simp add: bit_uint_iff bit_and7 bit_drop_bit_eq bit_geneToUint32
        bit_take_bit_iff split: if_splits)
  have 5: "signed_take_bit 15 (uint ?W) = signed_take_bit 15 (weightAsInt g)"
    by (rule bit_eqI)
      (auto simp add: bit_uint_iff bit_geneToUint32 bit_signed_take_bit_iff min_def
        split: if_splits)
  show ?thesis
    apply (rule Gene.equality)
    apply (simp_all only: weightAsInt_uint32ToGene 5 wt)
    unfolding uint32ToGene_def
    apply (simp_all only: Gene.simps 1 2 3 4 st si kt ki)
    apply simp
    done
qed

lemma uint32ToGene_in_range: "gene_in_range (uint32ToGene w)"
proof -
  have a: "0 \<le> take_bit n k \<and> take_bit n k \<le> 2 ^ n - 1" for n and k :: int
    using take_bit_int_less_exp [of n k] by simp
  have 1: "uint (x AND 1) = take_bit 1 (uint x)" for x :: u32
    by (rule bit_eqI) (auto simp only: bit_uint_iff bit_and1 bit_take_bit_iff)
  have 7: "uint (x AND 0x7F) = take_bit 7 (uint x)" for x :: u32
    by (rule bit_eqI) (auto simp only: bit_uint_iff bit_and7 bit_take_bit_iff)
  have w: "- 32768 \<le> signed_take_bit 15 k \<and> signed_take_bit 15 k \<le> 32767" for k :: int
    using signed_take_bit_int_greater_eq_minus_exp [of 15 k]
      signed_take_bit_int_less_exp [of 15 k] by simp
  have t: "gene_in_range g \<longleftrightarrow>
     (0 \<le> Gene.sourceType g \<and> Gene.sourceType g \<le> 1) \<and>
     (0 \<le> Gene.sourceId g \<and> Gene.sourceId g \<le> 127) \<and>
     (0 \<le> Gene.sinkType g \<and> Gene.sinkType g \<le> 1) \<and>
     (0 \<le> Gene.sinkId g \<and> Gene.sinkId g \<le> 127) \<and>
     (- 32768 \<le> weightAsInt g \<and> weightAsInt g \<le> 32767)" for g
    by (auto simp: gene_in_range_def)
  show ?thesis
    unfolding t weightAsInt_uint32ToGene
    unfolding uint32ToGene_def
    using a [of 1] a [of 7] w
    by (simp only: Gene.simps 1 7) simp
qed

text \<open>
  Claim C2. The codec is a bijection between the 32-bit words and the genes whose
  fields are in range: unpacking a word gives a gene in range, packing it again gives
  the word back, and unpacking the packed form of a gene in range gives the gene
  back. The low 16 bits are read as two's complement: \<open>0x0000FFFF\<close> unpacks to weight
  \<open>-1\<close>, \<open>0x00008000\<close> to \<open>-32768\<close> and \<open>0x00007FFF\<close> to \<open>32767\<close>.
\<close>

theorem gene_codec_bijection:
  "(\<forall>w. gene_in_range (uint32ToGene w) \<and> geneToUint32 (uint32ToGene w) = w) \<and>
   (\<forall>g. gene_in_range g \<longrightarrow> uint32ToGene (geneToUint32 g) = g) \<and>
   weightAsInt (uint32ToGene 0x0000FFFF) = - 1 \<and>
   weightAsInt (uint32ToGene 0x00008000) = - 32768 \<and>
   weightAsInt (uint32ToGene 0x00007FFF) = 32767"
proof -
  have "weightAsInt (uint32ToGene 0x0000FFFF) = - 1"
    "weightAsInt (uint32ToGene 0x00008000) = - 32768"
    "weightAsInt (uint32ToGene 0x00007FFF) = 32767"
    by (simp_all add: uint32ToGene_def)
  then show ?thesis
    using pack_unpack unpack_pack uint32ToGene_in_range by blast
qed

theorem gene_codec_bijection_witness:
  "gene_in_range \<lparr>Gene.sourceType = 1, Gene.sourceId = 0x7F, Gene.sinkType = 0, Gene.sinkId = 0x7F,
      weightAsInt = - 1\<rparr> \<and>
   geneToUint32 \<lparr>Gene.sourceType = 1, Gene.sourceId = 0x7F, Gene.sinkType = 0, Gene.sinkId = 0x7F,
      weightAsInt = - 1\<rparr> = 0xFF7FFFFF \<and>
   uint32ToGene 0xFF7FFFFF = \<lparr>Gene.sourceType = 1, Gene.sourceId = 0x7F, Gene.sinkType = 0,
      Gene.sinkId = 0x7F, weightAsInt = - 1\<rparr>"
proof -
  let ?g = "\<lparr>Gene.sourceType = 1, Gene.sourceId = 0x7F, Gene.sinkType = 0, Gene.sinkId = 0x7F,
      weightAsInt = - 1\<rparr>"
  have r: "gene_in_range ?g"
    by (simp add: gene_in_range_def)
  have p: "geneToUint32 ?g = 0xFF7FFFFF"
    by (simp add: geneToUint32_def)
  from gene_codec_bijection r have "uint32ToGene (geneToUint32 ?g) = ?g"
    by blast
  with r p show ?thesis by simp
qed

section \<open>Properties of the generator\<close>

lemma nextUint32_result: "fst (nextUint32 p) = rotl (s1 p * 5) 7 * 9"
  by (simp add: nextUint32_def Let_def)

lemma nextUint32_state:
  "snd (nextUint32 p) =
     \<lparr> s0 = s0 p XOR (s3 p XOR s1 p),
       s1 = s1 p XOR (s2 p XOR s0 p),
       s2 = (s2 p XOR s0 p) XOR push_bit 9 (s1 p),
       s3 = rotl (s3 p XOR s1 p) 11 \<rparr>"
  by (simp add: nextUint32_def Let_def)

lemma outputs_numeral:
  "outputs (numeral k) p = (let (r, p') = nextUint32 p in r # outputs (pred_numeral k) p')"
  by (simp add: numeral_eq_Suc)

text \<open>
  Claim C3, as the claim words it, fails: performed one after the other, the fifth
  assignment would shift the second state word after the third assignment has changed
  it. The code takes the shifted value \<^verbatim>\<open>t = s[1] << 9\<close> before any assignment. For the
  generator seeded with 0, the two updates give different states.
\<close>

theorem nextUint32_sequential_update_counterexample:
  "snd (nextUint32 (PRNG_new 0)) \<noteq> spec_state_update (PRNG_new 0)"
  by (simp add: PRNG_new_def splitmix32_def Let_def nextUint32_def spec_state_update_def
      rotl_def)

text \<open>
  Claim C3, amended. Every call of \<^verbatim>\<open>nextUint32\<close> returns
  \<open>rotl(state[1] * 5, 7) * 9\<close> modulo \<open>2^32\<close> of the state before the call; the new state
  is the result of \<open>s2 ^= s0; s3 ^= s1; s1 ^= s2; s0 ^= s3; s2 ^= t; s3 = rotl(s3, 11)\<close>
  performed in sequence, where \<open>t\<close> is the second state word of the state before the
  call shifted left by 9; and two generators constructed from the same seed return the
  same values, call after call.
\<close>

theorem nextUint32_update:
  "fst (nextUint32 p) = rotl (s1 p * 5) 7 * 9 \<and>
   snd (nextUint32 p) =
     \<lparr> s0 = s0 p XOR (s3 p XOR s1 p),
       s1 = s1 p XOR (s2 p XOR s0 p),
       s2 = (s2 p XOR s0 p) XOR push_bit 9 (s1 p),
       s3 = rotl (s3 p XOR s1 p) 11 \<rparr> \<and>
   (\<forall>seed a b n. a = PRNG_new seed \<and> b = PRNG_new seed \<longrightarrow> outputs n a = outputs n b)"
  using nextUint32_result [of p] nextUint32_state [of p] by simp

theorem nextUint32_update_witness:
  "outputs 2 (PRNG_new 12345678) = [3962158482, 3941708803] \<and>
   fst (nextUint32 (PRNG_new 0)) = 1789933344 \<and>
   snd (nextUint32 (PRNG_new 0)) =
     \<lparr>s0 = 3255476412, s1 = 311691198, s2 = 1269253666, s3 = 1199863091\<rparr>"
proof -
  have e: "PRNG_new 0 = \<lparr>s0 = 1684164658, s1 = 3653269916, s2 = 2939563536, s3 = 2141751570\<rparr>"
    by (simp add: PRNG_new_def splitmix32_def Let_def)
  have o: "outputs 2 (PRNG_new 12345678) = [3962158482, 3941708803]"
    by (simp add: outputs_numeral PRNG_new_def splitmix32_def Let_def nextUint32_def rotl_def)
  from nextUint32_update [of "PRNG_new 0"] o show ?thesis
    unfolding e by (simp add: rotl_def)
qed

section \<open>Properties of the gs operators\<close>

lemma snd_next01: "snd (next01 p) = prng_step p"
  by (simp add: next01_def prng_step_def case_prod_beta Let_def)
lemma snd_chance: "snd (chance p r) = prng_step p"
  using snd_next01 [of p] by (simp add: chance_def case_prod_beta Let_def)
lemma snd_nextInt: "snd (nextInt p m) = prng_step p"
  using snd_next01 [of p] by (simp add: nextInt_def case_prod_beta Let_def)
lemma snd_nextRange: "snd (nextRange p a b) = prng_step p"
  using snd_next01 [of p] by (simp add: nextRange_def case_prod_beta Let_def)
lemma snd_makeRandomGene: "snd (makeRandomGene p) = prng_step p"
  using snd_next01 [of p] by (simp add: makeRandomGene_def case_prod_beta Let_def)

lemma chance_zero: "chance p 0 = (False, prng_step p)"
proof -
  have "0 \<le> (unsigned u :: real)" for u :: u32
    by (metis unsigned_0 word_coorder.extremum word_less_eq_iff_unsigned)
  then have "\<not> real_of_int (uint u) / 4294967296 < 0" for u :: u32
    by (simp add: not_less)
  then show ?thesis
    by (simp add: chance_def next01_def prng_step_def case_prod_beta Let_def)
qed

lemma aid_empty: "applyInsertionDeletion [] p rate dr ml = ([], p)"
  by (simp add: applyInsertionDeletion_def)

lemma aid_draws:
  assumes "gs \<noteq> []"
  shows "snd (applyInsertionDeletion gs p rate dr ml) \<in>
     {prng_step p, prng_step (prng_step p), prng_step (prng_step (prng_step p)),
      prng_step (prng_step (prng_step (prng_step p)))}"
  using assms
  by (simp add: applyInsertionDeletion_def Let_def case_prod_beta snd_chance snd_nextInt
      snd_makeRandomGene)

text \<open>
  Claim C10. On the empty genome \<^verbatim>\<open>applyInsertionDeletion\<close> returns the genome and
  leaves the generator as it was: it draws nothing. On a genome that is not empty the
  generator it leaves behind is the one reached by at least one and at most four calls
  of \<^verbatim>\<open>nextUint32\<close>, whatever the rate, the deletion ratio and the maximal length.
\<close>

theorem applyInsertionDeletion_draws:
  "applyInsertionDeletion [] p rate dr ml = ([], p) \<and>
   (gs \<noteq> [] \<longrightarrow>
      (\<exists>k. 1 \<le> k \<and> k \<le> 4 \<and>
         snd (applyInsertionDeletion gs p rate dr ml) = (prng_step ^^ k) p))"
proof -
  have "\<exists>k. 1 \<le> k \<and> k \<le> 4 \<and> q = (prng_step ^^ k) p"
    if "q \<in> {prng_step p, prng_step (prng_step p), prng_step (prng_step (prng_step p)),
      prng_step (prng_step (prng_step (prng_step p)))}" for q
  proof -
    from that consider "q = (prng_step ^^ 1) p" | "q = (prng_step ^^ 2) p"
      | "q = (prng_step ^^ 3) p" | "q = (prng_step ^^ 4) p"
      by (auto simp: numeral_eq_Suc)
    then show ?thesis
    proof cases
      case 1 then show ?thesis by (intro exI [of _ 1]) simp
    next
      case 2 then show ?thesis by (intro exI [of _ 2]) simp
    next
      case 3 then show ?thesis by (intro exI [of _ 3]) simp
    next
      case 4 then show ?thesis by (intro exI [of _ 4]) simp
    qed
  qed
  with aid_draws aid_empty show ?thesis by blast
qed


theorem applyInsertionDeletion_draws_witness:
  "[uint32ToGene 5] \<noteq> [] \<and>
   applyInsertionDeletion [uint32ToGene 5] (PRNG_new 1) 0 (1 / 2) 300
     = ([uint32ToGene 5], prng_step (PRNG_new 1)) \<and>
   (\<exists>k. 1 \<le> k \<and> k \<le> 4 \<and>
      snd (applyInsertionDeletion [uint32ToGene 5] (PRNG_new 1) 0 (1 / 2) 300)
        = (prng_step ^^ k) (PRNG_new 1))"
proof -
  have "applyInsertionDeletion [uint32ToGene 5] (PRNG_new 1) 0 (1 / 2) 300
     = ([uint32ToGene 5], prng_step (PRNG_new 1))"
    by (simp add: applyInsertionDeletion_def chance_zero)
  then show ?thesis
    using applyInsertionDeletion_draws [of "PRNG_new 1" 0 "1 / 2" 300 "[uint32ToGene 5]"]
    by simp
qed

section \<open>The length of spawned genomes\<close>

text \<open>The generator seeded with 1 and its first eight draws.\<close>

lemma seed1_state: "PRNG_new 1 = \<lparr>s0 = 1580013426, s1 = 350525680, s2 = 3524174333, s3 = 3011703609\<rparr>"
  by (simp add: PRNG_new_def splitmix32_def Let_def)

lemma seed1_draw0: "nextUint32 \<lparr>s0 = 1580013426, s1 = 350525680, s2 = 3524174333, s3 = 3011703609\<rparr> = (393288148, \<lparr>s0 = 4182473915, s1 = 2563190399, s2 = 1158829711, s3 = 861818171\<rparr>)"
  by (simp add: nextUint32_def rotl_def Let_def)

lemma seed1_draw1: "nextUint32 \<lparr>s0 = 4182473915, s1 = 2563190399, s2 = 1158829711, s3 = 861818171\<rparr> = (2174103013, \<lparr>s0 = 1389502463, s1 = 614335563, s2 = 839242804, s3 = 3407488348\<rparr>)"
  by (simp add: nextUint32_def rotl_def Let_def)

lemma seed1_draw2: "nextUint32 \<lparr>s0 = 1389502463, s1 = 614335563, s2 = 839242804, s3 = 3407488348\<rparr> = (3814759091, \<lparr>s0 = 3176546024, s1 = 1145687936, s2 = 1558142411, s3 = 554221436\<rparr>)"
  by (simp add: nextUint32_def rotl_def Let_def)

lemma seed1_draw3: "nextUint32 \<lparr>s0 = 3176546024, s1 = 1145687936, s2 = 1558142411, s3 = 554221436\<rparr> = (2092745082, \<lparr>s0 = 3625405972, s1 = 2780867747, s2 = 1914069795, s3 = 193454890\<rparr>)"
  by (simp add: nextUint32_def rotl_def Let_def)

lemma seed1_draw4: "nextUint32 \<lparr>s0 = 3625405972, s1 = 2780867747, s2 = 1914069795, s3 = 193454890\<rparr> = (1865176206, \<lparr>s0 = 1984954781, s1 = 264339860, s2 = 727214903, s3 = 981224818\<rparr>)"
  by (simp add: nextUint32_def rotl_def Let_def)

lemma seed1_draw5: "nextUint32 \<lparr>s0 = 1984954781, s1 = 264339860, s2 = 727214903, s3 = 981224818\<rparr> = (2179171167, \<lparr>s0 = 1139658107, s1 = 1388964670, s2 = 3725279914, s3 = 3999740333\<rparr>)"
  by (simp add: nextUint32_def rotl_def Let_def)

lemma seed1_draw6: "nextUint32 \<lparr>s0 = 1139658107, s1 = 1388964670, s2 = 3725279914, s3 = 3999740333\<rparr> = (3207394750, \<lparr>s0 = 4282587112, s1 = 3475989743, s2 = 238089169, s3 = 1993645541\<rparr>)"
  by (simp add: nextUint32_def rotl_def Let_def)

lemma seed1_draw7: "nextUint32 \<lparr>s0 = 4282587112, s1 = 3475989743, s2 = 238089169, s3 = 1993645541\<rparr> = (2858353069, \<lparr>s0 = 1186524898, s1 = 1046249686, s2 = 2948217401, s3 = 3754448335\<rparr>)"
  by (simp add: nextUint32_def rotl_def Let_def)


lemma nextInt_eval:
  "nextUint32 p = (u, p') \<Longrightarrow> nextInt p m = (\<lfloor>real_of_int (uint u) / 4294967296 * real_of_int m\<rfloor>, p')"
  by (simp add: nextInt_def next01_def)
lemma chance_eval:
  "nextUint32 p = (u, p') \<Longrightarrow> chance p r = (real_of_int (uint u) / 4294967296 < r, p')"
  by (simp add: chance_def next01_def)


lemma createIndiv_genome: "createIndiv i g l prm = Inr ind \<Longrightarrow> genome ind = g"
  by (auto simp: createIndiv_def split: sum.splits)

lemma crossover_survivors_genomes:
  "length crossover_survivors = 2 \<and>
   genome (crossover_survivors ! 0) = [uint32ToGene 1, uint32ToGene 2] \<and>
   genome (crossover_survivors ! Suc 0) = [uint32ToGene 3, uint32ToGene 4] \<and>
   map (\<lambda>i. length (genome i)) crossover_survivors = [2, 2]"
proof -
  obtain n1 where n1: "buildNeuralNet [uint32ToGene 1, uint32ToGene 2] (Suc 0) = Inr n1"
    by (simp add: buildNeuralNet_def mkConnection_def pruneLoop.simps
      NEURON_def SENSOR_def ACTION_def uint32ToGene_def js_rem_def neuron_at_def Let_def)
  obtain n2 where n2: "buildNeuralNet [uint32ToGene 3, uint32ToGene 4] (Suc 0) = Inr n2"
    by (simp add: buildNeuralNet_def mkConnection_def pruneLoop.simps
      NEURON_def SENSOR_def ACTION_def uint32ToGene_def js_rem_def neuron_at_def Let_def)
  show ?thesis
    unfolding crossover_survivors_def createIndiv_def
    by (simp add: n1 n2 crossover_params_def)
qed

text \<open>
  Claim C6 fails on the code. Both survivors have genomes of length 2, which is the
  configured \<^verbatim>\<open>genomeMaxLength\<close>; with the generator seeded with 1 the crossover
  cuts after the second gene of the first parent and after the first gene of the
  second, and the child has three genes. Neither mutation step shortens it.
\<close>

theorem spawnNewGeneration_exceeds_genomeMaxLength:
  "map (\<lambda>i. length (genome i)) crossover_survivors = [2, 2] \<and>
   genomeMaxLength crossover_params = 2 \<and>
   map (map geneToUint32)
     (fst (spawnNewGeneration crossover_survivors crossover_params (PRNG_new 1))) = [[1, 2, 4]]"
proof -
  let ?q0 = "PRNG_new 1"
  let ?q1 = "\<lparr>s0 = 4182473915, s1 = 2563190399, s2 = 1158829711, s3 = 861818171\<rparr>"
  let ?q2 = "\<lparr>s0 = 1389502463, s1 = 614335563, s2 = 839242804, s3 = 3407488348\<rparr>"
  let ?q3 = "\<lparr>s0 = 3176546024, s1 = 1145687936, s2 = 1558142411, s3 = 554221436\<rparr>"
  let ?q4 = "\<lparr>s0 = 3625405972, s1 = 2780867747, s2 = 1914069795, s3 = 193454890\<rparr>"
  let ?q5 = "\<lparr>s0 = 1984954781, s1 = 264339860, s2 = 727214903, s3 = 981224818\<rparr>"
  let ?q6 = "\<lparr>s0 = 1139658107, s1 = 1388964670, s2 = 3725279914, s3 = 3999740333\<rparr>"
  let ?q7 = "\<lparr>s0 = 4282587112, s1 = 3475989743, s2 = 238089169, s3 = 1993645541\<rparr>"
  let ?q8 = "\<lparr>s0 = 1186524898, s1 = 1046249686, s2 = 2948217401, s3 = 3754448335\<rparr>"
  let ?S = crossover_survivors and ?P = crossover_params
  let ?child = "[uint32ToGene 1, uint32ToGene 2, uint32ToGene 4]"
  note sv = crossover_survivors_genomes
  have cf: "\<not> chooseParentsByFitness ?P" "sexualReproduction ?P" "population ?P = 1"
    "pointMutationRate ?P = 0" "geneInsertionDeletionRate ?P = 0" "genomeMaxLength ?P = 2"
    by (simp_all add: crossover_params_def)
  have i0: "nextInt ?q0 2 = (0, ?q1)"
    unfolding seed1_state by (simp add: nextInt_eval [OF seed1_draw0])
  have i1: "nextInt ?q1 2 = (1, ?q2)"
    by (simp add: nextInt_eval [OF seed1_draw1])
  have i2: "nextInt ?q2 2 = (1, ?q3)"
    by (simp add: nextInt_eval [OF seed1_draw2])
  have i3: "nextInt ?q3 2 = (0, ?q4)"
    by (simp add: nextInt_eval [OF seed1_draw3])
  have c4: "chance ?q4 0 = (False, ?q5)"
    by (simp add: chance_eval [OF seed1_draw4])
  have c5: "chance ?q5 0 = (False, ?q6)"
    by (simp add: chance_eval [OF seed1_draw5])
  have c6: "chance ?q6 0 = (False, ?q7)"
    by (simp add: chance_eval [OF seed1_draw6])
  have c7: "chance ?q7 0 = (False, ?q8)"
    by (simp add: chance_eval [OF seed1_draw7])
  have p1: "selectParent ?S ?P ?q0 = (0, ?q1)"
    by (simp add: selectParent_def cf sv i0)
  have p2: "selectParent ?S ?P ?q1 = (1, ?q2)"
    by (simp add: selectParent_def cf sv i1)
  have r: "retryParent 10 ?S ?P 0 (Suc 0) ?q2 = (Suc 0, ?q2)"
    by (simp add: numeral_eq_Suc)
  have x: "crossover [uint32ToGene 1, uint32ToGene 2] [uint32ToGene 3, uint32ToGene 4] ?q2
      = (?child, ?q4)"
    by (simp add: crossover_def i2 i3)
  have m: "applyPointMutations ?child ?q4 0 = (?child, ?q7)"
    by (simp add: c4 c5 c6)
  have d: "applyInsertionDeletion ?child ?q7 0 (deletionRatio ?P) 2 = (?child, ?q8)"
    by (simp add: applyInsertionDeletion_def c7)
  have ch: "spawnChild ?S ?P ?q0 = (?child, ?q8)"
    by (simp add: spawnChild_def cf sv p1 p2 r x m d del: applyPointMutations.simps)
  have "spawnNewGeneration ?S ?P ?q0 = ([?child], ?q8)"
    by (simp add: spawnNewGeneration_def sv cf ch)
  moreover have "map (\<lambda>i. length (genome i)) crossover_survivors = [2, 2]"
    using sv by simp
  ultimately show ?thesis
    using cf by (simp add: pack_unpack)
qed


section \<open>The pruning fixed point\<close>

lemma js_rem_nonneg: "0 \<le> a \<Longrightarrow> 0 < b \<Longrightarrow> js_rem a b = a mod b"
  by (cases "a = 0") (simp_all add: js_rem_def)

lemma mkConnection_ids:
  assumes "gene_in_range g" "1 \<le> n"
  shows "ids_in_range n (mkConnection g n)"
  using assms
  by (auto simp: ids_in_range_def mkConnection_def gene_in_range_def js_rem_nonneg
      NEURON_def ACTION_def SENSOR_def)

lemma markDriven_ok:
  assumes "\<forall>c \<in> set cs. ids_in_range (length ns) c"
  shows "\<exists>ns'. markDriven ns cs = Inr ns' \<and> length ns' = length ns \<and>
           (\<forall>i < length ns. driven (ns' ! i) \<longleftrightarrow> driven (ns ! i) \<or> feeds cs i)"
  using assms
proof (induction cs arbitrary: ns)
  case Nil
  then show ?case by (simp add: feeds_def)
next
  case (Cons c cs)
  show ?case
  proof (cases "sinkType c = NEURON")
    case False
    with Cons.IH [of ns] Cons.prems show ?thesis
      by (auto simp: feeds_def)
  next
    case True
    with Cons.prems have r: "0 \<le> sinkId c" "sinkId c < int (length ns)"
      by (auto simp: ids_in_range_def)
    let ?k = "nat (sinkId c)"
    let ?ns = "ns[?k := (ns ! ?k)\<lparr>driven := True\<rparr>]"
    from r have k: "?k < length ns" "int ?k = sinkId c" by auto
    from Cons.prems have "\<forall>c \<in> set cs. ids_in_range (length ?ns) c" by simp
    from Cons.IH [OF this] obtain ns' where
      m: "markDriven ?ns cs = Inr ns'" and l: "length ns' = length ns"
      and d: "\<forall>i < length ns. driven (ns' ! i) \<longleftrightarrow> driven (?ns ! i) \<or> feeds cs i"
      by auto
    have "markDriven ns (c # cs) = Inr ns'"
      using True r m by (simp add: neuron_at_def)
    moreover have "driven (ns' ! i) \<longleftrightarrow> driven (ns ! i) \<or> feeds (c # cs) i"
      if "i < length ns" for i
    proof (cases "i = ?k")
      case True
      then show ?thesis using d that k \<open>sinkType c = NEURON\<close> by (auto simp: feeds_def)
    next
      case False
      then have "sinkId c \<noteq> int i" using k by auto
      then show ?thesis using d that False by (auto simp: feeds_def)
    qed
    ultimately show ?thesis using l by blast
  qed
qed

lemma prunePass_ok:
  assumes "\<forall>c \<in> set cs. ids_in_range (length ns) c"
  shows "prunePass ns cs = Inr (filter (keeps ns) cs, \<exists>c \<in> set cs. \<not> keeps ns c)"
  using assms
proof (induction cs)
  case Nil
  then show ?case by simp
next
  case (Cons c cs)
  then have ih: "prunePass ns cs = Inr (filter (keeps ns) cs, \<exists>c \<in> set cs. \<not> keeps ns c)"
    by simp
  show ?case
  proof (cases "sourceType c = NEURON")
    case False
    then have "keeps ns c" by (simp add: keeps_def)
    with False show ?thesis using ih by simp
  next
    case True
    with Cons.prems have r: "0 \<le> sourceId c" "sourceId c < int (length ns)"
      by (auto simp: ids_in_range_def)
    have k: "keeps ns c \<longleftrightarrow> driven (ns ! nat (sourceId c))"
      using True by (simp add: keeps_def)
    show ?thesis using ih True r k by (simp add: neuron_at_def)
  qed
qed

lemma pruneLoop_ok:
  assumes "\<forall>c \<in> set conns. ids_in_range (length ns) c"
    and "\<forall>i < length ns. driven (ns ! i) \<longleftrightarrow> feeds conns i"
  shows "\<exists>net. pruneLoop ns conns = Inr net \<and> subseq (connections net) conns \<and>
           length (neurons net) = length ns \<and>
           (\<forall>c \<in> set (connections net). keeps (neurons net) c) \<and>
           (\<forall>i < length ns. driven (neurons net ! i) \<longleftrightarrow> feeds (connections net) i)"
  using assms
proof (induction ns conns rule: pruneLoop.induct)
  case (1 ns conns)
  let ?cs = "filter (keeps ns) conns"
  let ?ch = "\<exists>c \<in> set conns. \<not> keeps ns c"
  let ?ns0 = "map (\<lambda>n. n\<lparr>driven := False\<rparr>) ns"
  have pp: "prunePass ns conns = Inr (?cs, ?ch)"
    using prunePass_ok [OF "1.prems"(1)] .
  have ids: "\<forall>c \<in> set ?cs. ids_in_range (length ?ns0) c"
    using "1.prems"(1) by simp
  from markDriven_ok [OF ids] obtain ns' where
    md: "markDriven ?ns0 ?cs = Inr ns'" and len: "length ns' = length ns"
    and dr: "\<forall>i < length ns. driven (ns' ! i) \<longleftrightarrow> feeds ?cs i"
    by auto
  have step: "pruneLoop ns conns =
      (if ?ch then pruneLoop ns' ?cs else Inr \<lparr> connections = ?cs, neurons = ns' \<rparr>)"
    by (subst pruneLoop.simps) (simp add: pp md)
  show ?case
  proof (cases ?ch)
    case True
    have a: "\<forall>c \<in> set ?cs. ids_in_range (length ns') c"
      using "1.prems"(1) len by simp
    have b: "\<forall>i < length ns'. driven (ns' ! i) \<longleftrightarrow> feeds ?cs i"
      using dr len by simp
    from "1.IH" [OF pp refl md True a b] obtain net where
      n: "pruneLoop ns' ?cs = Inr net" "subseq (connections net) ?cs"
        "length (neurons net) = length ns'"
        "\<forall>c \<in> set (connections net). keeps (neurons net) c"
        "\<forall>i < length ns'. driven (neurons net ! i) \<longleftrightarrow> feeds (connections net) i"
      by blast
    have "subseq (connections net) conns"
      using n(2) subseq_filter_left [of "keeps ns" conns] subseq_order.trans by blast
    with n step True len show ?thesis by auto
  next
    case False
    then have same: "?cs = conns" by simp
    have k: "keeps ns' c" if "c \<in> set conns" for c
    proof -
      from that False have kc: "keeps ns c" by blast
      show ?thesis
      proof (cases "sourceType c = NEURON")
        case False then show ?thesis by (simp add: keeps_def)
      next
        case True
        with that "1.prems"(1) have r: "0 \<le> sourceId c" "sourceId c < int (length ns)"
          by (auto simp: ids_in_range_def)
        then have "nat (sourceId c) < length ns" by auto
        with dr same "1.prems"(2) have "driven (ns' ! nat (sourceId c)) = driven (ns ! nat (sourceId c))"
          by simp
        with kc show ?thesis by (simp add: keeps_def)
      qed
    qed
    show ?thesis
      using step False same k dr len by auto
  qed
qed

lemma buildNeuralNet_ok:
  assumes "\<forall>g \<in> set gs. gene_in_range g" and "1 \<le> n"
  shows "\<exists>net. buildNeuralNet gs n = Inr net \<and>
           subseq (connections net) (map (\<lambda>g. mkConnection g n) gs) \<and>
           length (neurons net) = n \<and>
           (\<forall>c \<in> set (connections net). ids_in_range n c \<and> keeps (neurons net) c) \<and>
           (\<forall>i < n. driven (neurons net ! i) \<longleftrightarrow> feeds (connections net) i)"
proof -
  let ?cs = "map (\<lambda>g. mkConnection g n) gs"
  let ?ns = "replicate n \<lparr> output = 0.5, driven = False \<rparr>"
  have ids: "\<forall>c \<in> set ?cs. ids_in_range n c"
    using assms mkConnection_ids by auto
  then have "\<forall>c \<in> set ?cs. ids_in_range (length ?ns) c" by simp
  from markDriven_ok [OF this] obtain ns' where
    md: "markDriven ?ns ?cs = Inr ns'" and len: "length ns' = n"
    and dr: "\<forall>i < n. driven (ns' ! i) \<longleftrightarrow> feeds ?cs i"
    by auto
  have a: "\<forall>c \<in> set ?cs. ids_in_range (length ns') c"
    using ids len by simp
  have b: "\<forall>i < length ns'. driven (ns' ! i) \<longleftrightarrow> feeds ?cs i"
    using dr len by simp
  from pruneLoop_ok [OF a b] obtain net where
    n: "pruneLoop ns' ?cs = Inr net" "subseq (connections net) ?cs"
      "length (neurons net) = length ns'"
      "\<forall>c \<in> set (connections net). keeps (neurons net) c"
      "\<forall>i < length ns'. driven (neurons net ! i) \<longleftrightarrow> feeds (connections net) i"
    by blast
  have "buildNeuralNet gs n = Inr net"
    by (simp only: buildNeuralNet_def Let_def md sum.case n(1))
  moreover have "\<forall>c \<in> set (connections net). ids_in_range n c"
    using n(2) ids list_emb_set [of "(=)" "connections net" ?cs] by blast
  ultimately show ?thesis using n len by auto
qed


text \<open>
  Claim C4. For a genome whose genes are in range and at least one internal neuron,
  \<^verbatim>\<open>buildNeuralNet\<close> returns a network. No connection of it has a neuron as source
  that is not driven; another pruning pass removes nothing; every neuron marked driven
  is the sink of a remaining connection; and the remaining connections are a
  subsequence of the genome's connections, in the genome's order.
\<close>

theorem buildNeuralNet_pruning_fixed_point:
  assumes "\<forall>g \<in> set gs. gene_in_range g" and "1 \<le> n"
  shows "\<exists>net. buildNeuralNet gs n = Inr net \<and>
           length (neurons net) = n \<and>
           (\<forall>c \<in> set (connections net). sourceType c = NEURON \<longrightarrow>
              (\<exists>nr. neuron_at (neurons net) (sourceId c) = Some nr \<and> driven nr)) \<and>
           prunePass (neurons net) (connections net) = Inr (connections net, False) \<and>
           (\<forall>i < length (neurons net). driven (neurons net ! i) \<longrightarrow>
              (\<exists>c \<in> set (connections net). sinkType c = NEURON \<and> sinkId c = int i)) \<and>
           subseq (connections net) (map (\<lambda>g. mkConnection g n) gs)"
proof -
  from buildNeuralNet_ok [OF assms] obtain net where
    b: "buildNeuralNet gs n = Inr net"
    and s: "subseq (connections net) (map (\<lambda>g. mkConnection g n) gs)"
    and l: "length (neurons net) = n"
    and k: "\<forall>c \<in> set (connections net). ids_in_range n c \<and> keeps (neurons net) c"
    and f: "\<forall>i < n. driven (neurons net ! i) \<longleftrightarrow> feeds (connections net) i"
    by blast
  have 1: "\<exists>nr. neuron_at (neurons net) (sourceId c) = Some nr \<and> driven nr"
    if "c \<in> set (connections net)" "sourceType c = NEURON" for c
    using that k l by (auto simp: ids_in_range_def keeps_def neuron_at_def)
  have "\<forall>c \<in> set (connections net). ids_in_range (length (neurons net)) c"
    using k l by simp
  from prunePass_ok [OF this]
  have 2: "prunePass (neurons net) (connections net) = Inr (connections net, False)"
    using k by simp
  have 3: "\<exists>c \<in> set (connections net). sinkType c = NEURON \<and> sinkId c = int i"
    if "i < length (neurons net)" "driven (neurons net ! i)" for i
    using that f l by (auto simp: feeds_def)
  from b s l 1 2 3 show ?thesis by blast
qed

theorem buildNeuralNet_pruning_fixed_point_witness:
  "gene_in_range (uint32ToGene 0x00010000) \<and> gene_in_range (uint32ToGene 0x01800000) \<and>
   buildNeuralNet [uint32ToGene 0x00010000, uint32ToGene 0x01800000] 2
     = Inr \<lparr> connections = [],
             neurons = [\<lparr> output = 1 / 2, driven = False \<rparr>, \<lparr> output = 1 / 2, driven = False \<rparr>] \<rparr> \<and>
   (\<exists>net. buildNeuralNet [uint32ToGene 0x00010000, uint32ToGene 0x01800000] 2 = Inr net \<and>
      prunePass (neurons net) (connections net) = Inr (connections net, False) \<and>
      subseq (connections net)
        (map (\<lambda>g. mkConnection g 2) [uint32ToGene 0x00010000, uint32ToGene 0x01800000]))"
proof -
  let ?gs = "[uint32ToGene 0x00010000, uint32ToGene 0x01800000]"
  have r: "\<forall>g \<in> set ?gs. gene_in_range g"
    by (simp add: uint32ToGene_in_range)
  let ?c1 = "\<lparr> sourceType = 0, sourceId = 0, sinkType = 0, sinkId = 1, weight = 0 \<rparr>"
  let ?c2 = "\<lparr> sourceType = 0, sourceId = 1, sinkType = 1, sinkId = 0, weight = 0 \<rparr>"
  let ?F = "\<lparr> output = 1 / 2, driven = False \<rparr>"
  let ?T = "\<lparr> output = 1 / 2, driven = True \<rparr>"
  have c: "map (\<lambda>g. mkConnection g 2) ?gs = [?c1, ?c2]"
    by (simp add: mkConnection_def uint32ToGene_def js_rem_def SENSOR_def ACTION_def
        geneWeight_def)
  have n: "replicate 2 \<lparr> output = 0.5, driven = False \<rparr> = [?F, ?F]"
    by (simp add: numeral_2_eq_2)
  have m: "markDriven [?F, ?F] [?c1, ?c2] = Inr [?F, ?T]"
    by (simp add: neuron_at_def NEURON_def)
  have p1: "prunePass [?F, ?T] [?c1, ?c2] = Inr ([?c2], True)"
    by (simp add: neuron_at_def NEURON_def)
  have m1: "markDriven [?F, ?F] [?c2] = Inr [?F, ?F]"
    by (simp add: neuron_at_def NEURON_def)
  have p2: "prunePass [?F, ?F] [?c2] = Inr ([], True)"
    by (simp add: neuron_at_def NEURON_def)
  have p3: "prunePass [?F, ?F] [] = Inr ([], False)"
    by simp
  have m0: "markDriven [?F, ?F] [] = Inr [?F, ?F]"
    by simp
  have cl1: "map (\<lambda>n. n\<lparr>driven := False\<rparr>) [?F, ?T] = [?F, ?F]"
    and cl2: "map (\<lambda>n. n\<lparr>driven := False\<rparr>) [?F, ?F] = [?F, ?F]"
    by simp_all
  have l3: "pruneLoop [?F, ?F] [] = Inr \<lparr> connections = [], neurons = [?F, ?F] \<rparr>"
    by (subst pruneLoop.simps) (simp only: p3 cl2 m0 sum.case prod.case if_False)
  have l2: "pruneLoop [?F, ?F] [?c2] = Inr \<lparr> connections = [], neurons = [?F, ?F] \<rparr>"
    by (subst pruneLoop.simps) (simp only: p2 cl2 m0 sum.case prod.case if_True l3)
  have l1: "pruneLoop [?F, ?T] [?c1, ?c2] = Inr \<lparr> connections = [], neurons = [?F, ?F] \<rparr>"
    by (subst pruneLoop.simps) (simp only: p1 cl1 m1 sum.case prod.case if_True l2)
  have e: "buildNeuralNet ?gs 2 = Inr \<lparr> connections = [], neurons = [?F, ?F] \<rparr>"
    unfolding buildNeuralNet_def Let_def c n by (simp only: m l1 sum.case)
  from buildNeuralNet_pruning_fixed_point [OF r, of 2] e show ?thesis
    using uint32ToGene_in_range by auto
qed

section \<open>Evaluating the rounding to doubles\<close>

lemma pow2_powr: "pow2 e = 2 powr real_of_int e"
  by (simp add: pow2_def powr_real_of_int field_simps)

lemma pow2_pos: "0 < pow2 e"
  by (simp add: pow2_powr)

lemma dbl_exponent_eq:
  assumes "pow2 (e + 52) \<le> \<bar>x\<bar>" "\<bar>x\<bar> < pow2 (e + 53)" "- 1074 \<le> e"
  shows "dbl_exponent x = e"
proof -
  from assms(1) pow2_pos [of "e + 52"] have p: "0 < \<bar>x\<bar>" by linarith
  have "\<lfloor>log 2 \<bar>x\<bar>\<rfloor> = e + 52"
    using assms(1,2) p by (subst floor_log_eq_powr_iff) (simp_all add: pow2_powr add.commute)
  with assms(3) show ?thesis by (simp add: dbl_exponent_def)
qed

text \<open>
  The double of a number whose magnitude lies between \<open>2\<^sup>e\<^sup>+\<^sup>5\<^sup>2\<close> and \<open>2\<^sup>e\<^sup>+\<^sup>5\<^sup>3\<close>
  is the nearest multiple of \<open>2\<^sup>e\<close>.
\<close>

lemma dbl_eval:
  assumes "pow2 (e + 52) \<le> \<bar>x\<bar>" "\<bar>x\<bar> < pow2 (e + 53)" "- 1074 \<le> e"
  shows "dbl x = real_of_int (round_even (x / pow2 e)) * pow2 e"
proof -
  from assms(1) pow2_pos [of "e + 52"] have "x \<noteq> 0" by auto
  then show ?thesis
    by (simp add: dbl_def dbl_exponent_eq [OF assms])
qed

lemma dbl_0: "dbl 0 = 0"
  by (simp add: dbl_def)

lemma dbl_1: "dbl 1 = 1"
  by (subst dbl_eval [where e = "- 52"]) (simp_all add: pow2_def round_even_def)

lemma dbl_2: "dbl 2 = 2"
  by (subst dbl_eval [where e = "- 51"]) (simp_all add: pow2_def round_even_def)

lemma dbl_half: "dbl (1 / 2) = 1 / 2"
  by (subst dbl_eval [where e = "- 53"]) (simp_all add: pow2_def round_even_def)

lemma dbl_255_2: "dbl (255 / 2) = 255 / 2"
  by (subst dbl_eval [where e = "- 46"]) (simp_all add: pow2_def round_even_def)

lemma dbl_255: "dbl 255 = 255"
  by (subst dbl_eval [where e = "- 45"]) (simp_all add: pow2_def round_even_def)

lemma dbl_5: "dbl 5 = 5"
  by (subst dbl_eval [where e = "- 50"]) (simp_all add: pow2_def round_even_def)

lemma dbl_6: "dbl 6 = 6"
  by (subst dbl_eval [where e = "- 50"]) (simp_all add: pow2_def round_even_def)

lemma dbl_25: "dbl 25 = 25"
  by (subst dbl_eval [where e = "- 48"]) (simp_all add: pow2_def round_even_def)

lemma dbl_5_6: "dbl (5 / 6) = 7505999378950827 / 9007199254740992"
  by (subst dbl_eval [where e = "- 53"]) (simp_all add: pow2_def round_even_def)

lemma dbl_1_6:
  "dbl (1 - 7505999378950827 / 9007199254740992) = 1501199875790165 / 9007199254740992"
  by (subst dbl_eval [where e = "- 55"]) (simp_all add: pow2_def round_even_def)

lemma dbl_255_6:
  "dbl (255 * (1501199875790165 / 9007199254740992)) = 5981343255101439 / 140737488355328"
  by (subst dbl_eval [where e = "- 47"]) (simp_all add: pow2_def round_even_def)

section \<open>Signal layers stay bytes\<close>

lemma Signals_new_ok: "signals_ok (Signals_new sx sy n)"
  by (simp add: signals_ok_def Signals_new_def)

lemma coord_eq_iff: "l = \<lparr> cx = a, cy = b \<rparr> \<longleftrightarrow> cx l = a \<and> cy l = b"
  by (cases l) simp

lemma sig_idx_bounds:
  assumes "sig_isInBounds s l"
  shows "0 \<le> sig_idx s (cx l) (cy l)"
    and "sig_idx s (cx l) (cy l) < Signals.sizeX s * Signals.sizeY s"
proof -
  let ?w = "Signals.sizeX s" and ?h = "Signals.sizeY s"
  from assms have b: "0 \<le> cx l" "cx l < ?w" "0 \<le> cy l" "cy l < ?h"
    by (simp_all add: sig_isInBounds_def)
  then have "0 \<le> cy l * ?w" by simp
  with b show "0 \<le> sig_idx s (cx l) (cy l)"
    by (simp add: sig_idx_def)
  from b have "cy l + 1 \<le> ?h" by simp
  then have "(cy l + 1) * ?w \<le> ?h * ?w"
    using b by (intro mult_right_mono) simp_all
  then show "sig_idx s (cx l) (cy l) < ?w * ?h"
    using b by (simp add: sig_idx_def algebra_simps)
qed

lemma sig_idx_inj:
  assumes "sig_isInBounds s l" "sig_isInBounds s l'"
    and "sig_idx s (cx l) (cy l) = sig_idx s (cx l') (cy l')"
  shows "l = l'"
proof -
  let ?w = "Signals.sizeX s"
  from assms(1,2) have b: "0 \<le> cx l" "cx l < ?w" "0 \<le> cx l'" "cx l' < ?w"
    by (simp_all add: sig_isInBounds_def)
  from assms(3) have e: "cy l * ?w + cx l = cy l' * ?w + cx l'"
    by (simp add: sig_idx_def)
  have "(cy l * ?w + cx l) div ?w = cy l" "(cy l' * ?w + cx l') div ?w = cy l'"
    using b by simp_all
  with e have y: "cy l = cy l'" by simp
  with e have "cx l = cx l'" by simp
  with y show ?thesis by (cases l, cases l') simp
qed

lemma u8_id: "0 \<le> v \<Longrightarrow> v \<le> 255 \<Longrightarrow> u8 v = v"
  by (simp add: u8_def)

lemma u8_range: "0 \<le> u8 v \<and> u8 v \<le> 255"
  by (simp add: u8_def)

lemma sig_store_ok:
  assumes "signals_ok s" "0 \<le> v" "v \<le> 255"
  shows "signals_ok (sig_store s k i v)"
proof (cases "k < length (layers s)")
  case False
  then have "length (layers s) \<le> k" by simp
  then have "(layers s)[k := (layers s ! k)[nat i := u8 v]] = layers s"
    by (rule list_update_beyond)
  then have "sig_store s k i v = s"
    by (simp add: sig_store_def)
  with assms(1) show ?thesis by simp
next
  case True
  let ?Ls = "layers s"
  let ?L = "(?Ls ! k)[nat i := v]"
  from True have m: "?Ls ! k \<in> set ?Ls" by simp
  with assms(1) have old: "length (?Ls ! k) = nat (Signals.sizeX s * Signals.sizeY s)"
    "\<forall>x \<in> set (?Ls ! k). 0 \<le> x \<and> x \<le> 255"
    by (simp_all add: signals_ok_def)
  have new: "length ?L = nat (Signals.sizeX s * Signals.sizeY s)"
    "\<forall>x \<in> set ?L. 0 \<le> x \<and> x \<le> 255"
    using old assms(2,3) set_update_subset_insert [of "?Ls ! k" "nat i" v] by auto
  have sub: "set (?Ls[k := ?L]) \<subseteq> insert ?L (set ?Ls)"
    by (rule set_update_subset_insert)
  have "\<forall>L \<in> set (?Ls[k := ?L]). length L = nat (Signals.sizeX s * Signals.sizeY s) \<and>
        (\<forall>x \<in> set L. 0 \<le> x \<and> x \<le> 255)"
  proof
    fix L assume "L \<in> set (?Ls[k := ?L])"
    with sub have "L = ?L \<or> L \<in> set ?Ls" by auto
    then show "length L = nat (Signals.sizeX s * Signals.sizeY s) \<and>
        (\<forall>x \<in> set L. 0 \<le> x \<and> x \<le> 255)"
      using new assms(1) by (auto simp: signals_ok_def)
  qed
  moreover have "length (?Ls[k := ?L]) = numLayers s"
    using assms(1) by (simp add: signals_ok_def)
  ultimately show ?thesis
    unfolding signals_ok_def sig_store_def u8_id [OF assms(2,3)] by simp
qed

lemma sig_get_store:
  assumes "signals_ok s" "0 \<le> v" "v \<le> 255" "sig_isInBounds s l" "k < numLayers s"
  shows "sig_get (sig_store s k (sig_idx s (cx l) (cy l)) v) k' l' =
     (if k' = k \<and> l' = l then v else sig_get s k' l')"
proof -
  let ?s = "sig_store s k (sig_idx s (cx l) (cy l)) v"
  let ?i = "nat (sig_idx s (cx l) (cy l))"
  have same: "Signals.sizeX ?s = Signals.sizeX s" "Signals.sizeY ?s = Signals.sizeY s"
    "numLayers ?s = numLayers s" "sig_isInBounds ?s l' = sig_isInBounds s l'"
    "sig_idx ?s a b = sig_idx s a b" for a b
    by (simp_all add: sig_store_def sig_isInBounds_def sig_idx_def)
  from assms(1,5) have kl: "k < length (layers s)" by (simp add: signals_ok_def)
  then have "layers s ! k \<in> set (layers s)" by simp
  with assms(1) have len: "length (layers s ! k) = nat (Signals.sizeX s * Signals.sizeY s)"
    by (simp add: signals_ok_def)
  from sig_idx_bounds [OF assms(4)] len have il: "?i < length (layers s ! k)"
    by auto
  show ?thesis
  proof (cases "sig_isInBounds s l' \<and> k' < numLayers s")
    case False
    then show ?thesis using assms(4,5) by (auto simp: sig_get_def same)
  next
    case True
    let ?j = "nat (sig_idx s (cx l') (cy l'))"
    have g: "sig_get ?s k' l' = layers ?s ! k' ! ?j" "sig_get s k' l' = layers s ! k' ! ?j"
      using True by (simp_all add: sig_get_def same)
    show ?thesis
    proof (cases "k' = k")
      case False
      then show ?thesis using g kl by (simp add: sig_store_def)
    next
      case k: True
      have ij: "?j = ?i \<longleftrightarrow> l' = l"
      proof
        assume "?j = ?i"
        with sig_idx_bounds(1) [OF assms(4)] True sig_idx_bounds(1) [of s l']
        have "sig_idx s (cx l') (cy l') = sig_idx s (cx l) (cy l)" by auto
        with sig_idx_inj [of s l' l] True assms(4) show "l' = l" by simp
      qed simp
      have "layers ?s ! k ! ?j = (if ?j = ?i then v else layers s ! k ! ?j)"
        using kl il by (simp add: sig_store_def u8_id [OF assms(2,3)] nth_list_update)
      with g k ij show ?thesis by simp
    qed
  qed
qed


lemma shape_sig_store [simp]:
  "Signals.sizeX (sig_store s k i v) = Signals.sizeX s"
  "Signals.sizeY (sig_store s k i v) = Signals.sizeY s"
  "numLayers (sig_store s k i v) = numLayers s"
  by (simp_all add: sig_store_def)

lemma shape_increment [simp]:
  "Signals.sizeX (increment s k l a) = Signals.sizeX s"
  "Signals.sizeY (increment s k l a) = Signals.sizeY s"
  "numLayers (increment s k l a) = numLayers s"
  by (simp_all add: increment_def Let_def)

lemma shape_emit_cell [simp]:
  "Signals.sizeX (emit_cell k c r dx dy s) = Signals.sizeX s"
  "Signals.sizeY (emit_cell k c r dx dy s) = Signals.sizeY s"
  "numLayers (emit_cell k c r dx dy s) = numLayers s"
  by (simp_all add: emit_cell_def Let_def)

lemma inb_shape:
  "Signals.sizeX s' = Signals.sizeX s \<Longrightarrow> Signals.sizeY s' = Signals.sizeY s \<Longrightarrow>
   sig_isInBounds s' l = sig_isInBounds s l"
  by (simp add: sig_isInBounds_def)

lemma sig_get_range:
  assumes "signals_ok s"
  shows "0 \<le> sig_get s k l \<and> sig_get s k l \<le> 255"
proof (cases "sig_isInBounds s l \<and> k < numLayers s")
  case False
  then show ?thesis by (auto simp: sig_get_def)
next
  case True
  with assms have kl: "k < length (layers s)" by (simp add: signals_ok_def)
  then have m: "layers s ! k \<in> set (layers s)" by simp
  with assms have len: "length (layers s ! k) = nat (Signals.sizeX s * Signals.sizeY s)"
    and rg: "\<forall>v \<in> set (layers s ! k). 0 \<le> v \<and> v \<le> 255"
    by (simp_all add: signals_ok_def)
  from True sig_idx_bounds [of s l] len
  have "nat (sig_idx s (cx l) (cy l)) < length (layers s ! k)" by auto
  then have "layers s ! k ! nat (sig_idx s (cx l) (cy l)) \<in> set (layers s ! k)" by simp
  with rg True show ?thesis by (simp add: sig_get_def)
qed

lemma increment_eq:
  assumes "sig_isInBounds s l" "k < numLayers s"
  shows "increment s k l a =
     sig_store s k (sig_idx s (cx l) (cy l)) (min 255 (max 0 (sig_get s k l + a)))"
  using assms by (simp add: increment_def sig_get_def Let_def)

lemma increment_ok:
  assumes "signals_ok s"
  shows "signals_ok (increment s k l a)"
proof (cases "sig_isInBounds s l \<and> k < numLayers s")
  case False
  then show ?thesis using assms by (auto simp: increment_def)
next
  case True
  then show ?thesis
    using sig_store_ok [OF assms, of "min 255 (max 0 (sig_get s k l + a))"]
    by (simp add: increment_eq)
qed

lemma sig_get_increment:
  assumes "signals_ok s"
  shows "sig_get (increment s k l a) k' l' =
     (if k' = k \<and> l' = l \<and> sig_isInBounds s l \<and> k < numLayers s
      then min 255 (max 0 (sig_get s k l + a)) else sig_get s k' l')"
proof (cases "sig_isInBounds s l \<and> k < numLayers s")
  case False
  then show ?thesis by (auto simp: increment_def)
next
  case True
  then show ?thesis
    using sig_get_store [OF assms, of "min 255 (max 0 (sig_get s k l + a))" l k k' l']
    by (simp add: increment_eq)
qed

lemma emit_cell_ok: "signals_ok s \<Longrightarrow> signals_ok (emit_cell k c r dx dy s)"
  by (simp add: emit_cell_def Let_def increment_ok)

lemma sig_get_emit_cell:
  assumes "signals_ok s"
  shows "sig_get (emit_cell k c r dx dy s) k' l' =
     (if k' = k \<and> cx l' - cx c = dx \<and> cy l' - cy c = dy \<and>
         real_of_int (dx * dx + dy * dy) \<le> dbl (r * r) \<and> sig_isInBounds s l' \<and> k < numLayers s
      then min 255 (max 0 (sig_get s k l' + emit_amount r dx dy)) else sig_get s k' l')"
proof -
  have e: "l' = \<lparr> cx = cx c + dx, cy = cy c + dy \<rparr> \<longleftrightarrow> cx l' - cx c = dx \<and> cy l' - cy c = dy"
    by (auto simp: coord_eq_iff)
  show ?thesis
    unfolding emit_cell_def Let_def
    using e by (auto simp: sig_get_increment [OF assms] emit_amount_def)
qed

text \<open>A run of the loop body over a list of distinct offsets.\<close>

lemma fold_emit_cells:
  assumes "signals_ok s" "distinct offs"
  shows "signals_ok (fold (\<lambda>(dx, dy). emit_cell k c r dx dy) offs s) \<and>
     Signals.sizeX (fold (\<lambda>(dx, dy). emit_cell k c r dx dy) offs s) = Signals.sizeX s \<and>
     Signals.sizeY (fold (\<lambda>(dx, dy). emit_cell k c r dx dy) offs s) = Signals.sizeY s \<and>
     numLayers (fold (\<lambda>(dx, dy). emit_cell k c r dx dy) offs s) = numLayers s \<and>
     (\<forall>k' l'. sig_get (fold (\<lambda>(dx, dy). emit_cell k c r dx dy) offs s) k' l' =
       (if k' = k \<and> (cx l' - cx c, cy l' - cy c) \<in> set offs \<and>
           real_of_int ((cx l' - cx c) * (cx l' - cx c) + (cy l' - cy c) * (cy l' - cy c)) \<le> dbl (r * r) \<and>
           sig_isInBounds s l' \<and> k < numLayers s
        then min 255 (max 0 (sig_get s k l' + emit_amount r (cx l' - cx c) (cy l' - cy c)))
        else sig_get s k' l'))"
  using assms
proof (induction offs arbitrary: s)
  case Nil
  then show ?case by simp
next
  case (Cons o1 offs)
  obtain dx dy where o1: "o1 = (dx, dy)" by (cases o1)
  let ?s1 = "emit_cell k c r dx dy s"
  have ok1: "signals_ok ?s1" using Cons.prems(1) by (rule emit_cell_ok)
  from Cons.prems(2) have d: "distinct offs" and ni: "(dx, dy) \<notin> set offs"
    by (simp_all add: o1)
  note ih = Cons.IH [OF ok1 d]
  have inb: "sig_isInBounds ?s1 l = sig_isInBounds s l" for l
    by (rule inb_shape) simp_all
  have f: "fold (\<lambda>(dx, dy). emit_cell k c r dx dy) (o1 # offs) s
      = fold (\<lambda>(dx, dy). emit_cell k c r dx dy) offs ?s1"
    by (simp add: o1)
  show ?case
    unfolding f
    using ih ni
    by (auto simp: inb sig_get_emit_cell [OF Cons.prems(1)] o1)
qed


lemma fold_product:
  "fold (\<lambda>(a, b). f a b) (List.product xs ys) s = fold (\<lambda>a s. fold (\<lambda>b s. f a b s) ys s) xs s"
proof (induction xs arbitrary: s)
  case Nil
  then show ?case by simp
next
  case (Cons a xs)
  have "fold (\<lambda>(a, b). f a b) (map (Pair a) ys) s = fold (\<lambda>b s. f a b s) ys s"
    by (simp add: fold_map comp_def)
  with Cons show ?case by simp
qed

lemma emit_fold:
  "emit s k c r =
     fold (\<lambda>(dx, dy). emit_cell k c r dx dy) (List.product [- \<lfloor>r\<rfloor>..\<lfloor>r\<rfloor>] [- \<lfloor>r\<rfloor>..\<lfloor>r\<rfloor>]) s"
  unfolding emit_def Let_def by (simp add: fold_product)

lemma within_radius:
  assumes "0 \<le> r" "real_of_int (dx * dx + dy * dy) \<le> r * r"
  shows "- \<lfloor>r\<rfloor> \<le> dx \<and> dx \<le> \<lfloor>r\<rfloor>"
proof -
  have "0 \<le> real_of_int dy * real_of_int dy"
    by simp
  moreover from assms(2)
  have "real_of_int dx * real_of_int dx + real_of_int dy * real_of_int dy \<le> r * r"
    by simp
  ultimately have "real_of_int dx * real_of_int dx \<le> r * r"
    by linarith
  then have "(real_of_int dx)\<^sup>2 \<le> r\<^sup>2"
    by (simp add: power2_eq_square)
  then have "\<bar>real_of_int dx\<bar> \<le> r"
    using assms(1) by (simp add: abs_le_square_iff [symmetric])
  then have "real_of_int dx \<le> r" "real_of_int (- dx) \<le> r"
    by simp_all
  then have "dx \<le> \<lfloor>r\<rfloor>" "- dx \<le> \<lfloor>r\<rfloor>"
    by (simp_all only: le_floor_iff)
  then show ?thesis by simp
qed

lemma emit_ok: "signals_ok s \<Longrightarrow> signals_ok (emit s k c r)"
  unfolding emit_fold
  using fold_emit_cells [of s "List.product [- \<lfloor>r\<rfloor>..\<lfloor>r\<rfloor>] [- \<lfloor>r\<rfloor>..\<lfloor>r\<rfloor>]" k c r]
  by (simp add: distinct_product)

lemma sig_get_emit:
  assumes "signals_ok s" "k < numLayers s" "sig_isInBounds s l"
  shows "sig_get (emit s k c r) k l =
     (if in_emit_range r (cx l - cx c) (cy l - cy c)
      then min 255 (sig_get s k l + emit_amount r (cx l - cx c) (cy l - cy c))
      else sig_get s k l)"
proof -
  let ?dx = "cx l - cx c" and ?dy = "cy l - cy c"
  let ?offs = "List.product [- \<lfloor>r\<rfloor>..\<lfloor>r\<rfloor>] [- \<lfloor>r\<rfloor>..\<lfloor>r\<rfloor>]"
  have d: "distinct ?offs" by (simp add: distinct_product)
  have m: "in_emit_range r ?dx ?dy \<longleftrightarrow>
      (?dx, ?dy) \<in> set ?offs \<and> real_of_int (?dx * ?dx + ?dy * ?dy) \<le> dbl (r * r)"
    by (auto simp: in_emit_range_def)
  have a: "1 \<le> emit_amount r ?dx ?dy" by (simp add: emit_amount_def)
  have "0 \<le> sig_get s k l" using sig_get_range [OF assms(1)] by simp
  with a have mx: "max 0 (sig_get s k l + emit_amount r ?dx ?dy) = sig_get s k l + emit_amount r ?dx ?dy"
    by simp
  from fold_emit_cells [OF assms(1) d, of k c r]
  have "sig_get (emit s k c r) k l =
       (if k = k \<and> (?dx, ?dy) \<in> set ?offs \<and>
           real_of_int (?dx * ?dx + ?dy * ?dy) \<le> dbl (r * r) \<and>
           sig_isInBounds s l \<and> k < numLayers s
        then min 255 (max 0 (sig_get s k l + emit_amount r ?dx ?dy))
        else sig_get s k l)"
    unfolding emit_fold by blast
  then show ?thesis
    using m assms(2,3) mx by auto
qed

text \<open>
  For a radius that is not negative and whose square is a double, the offsets are those
  of the disc.
\<close>

lemma in_emit_range_disc:
  assumes "0 \<le> r" "dbl (r * r) = r * r"
  shows "in_emit_range r dx dy \<longleftrightarrow> real_of_int (dx * dx + dy * dy) \<le> r * r"
  using within_radius [OF assms(1), of dx dy] within_radius [OF assms(1), of dy dx] assms(2)
  by (auto simp: in_emit_range_def add.commute)

lemma fade_ok:
  assumes "signals_ok s"
  shows "signals_ok (fade s k)"
proof (cases "k < numLayers s")
  case False
  then show ?thesis using assms by (simp add: fade_def)
next
  case True
  let ?f = "\<lambda>v. if v > 0 then u8 (max 0 (v - 1)) else (v::int)"
  let ?Ls = "layers s"
  let ?L = "map ?f (?Ls ! k)"
  from True assms have kl: "k < length ?Ls" by (simp add: signals_ok_def)
  then have "?Ls ! k \<in> set ?Ls" by simp
  with assms have old: "length (?Ls ! k) = nat (Signals.sizeX s * Signals.sizeY s)"
    "\<forall>x \<in> set (?Ls ! k). 0 \<le> x \<and> x \<le> 255"
    by (simp_all add: signals_ok_def)
  have new: "length ?L = nat (Signals.sizeX s * Signals.sizeY s)"
    "\<forall>x \<in> set ?L. 0 \<le> x \<and> x \<le> 255"
    using old u8_range by auto
  have sub: "set (?Ls[k := ?L]) \<subseteq> insert ?L (set ?Ls)"
    by (rule set_update_subset_insert)
  have "\<forall>L \<in> set (?Ls[k := ?L]). length L = nat (Signals.sizeX s * Signals.sizeY s) \<and>
        (\<forall>x \<in> set L. 0 \<le> x \<and> x \<le> 255)"
  proof
    fix L assume "L \<in> set (?Ls[k := ?L])"
    with sub have "L = ?L \<or> L \<in> set ?Ls" by auto
    then show "length L = nat (Signals.sizeX s * Signals.sizeY s) \<and>
        (\<forall>x \<in> set L. 0 \<le> x \<and> x \<le> 255)"
      using new assms by (auto simp: signals_ok_def)
  qed
  moreover have "length (?Ls[k := ?L]) = numLayers s"
    using assms by (simp add: signals_ok_def)
  ultimately show ?thesis
    using True unfolding signals_ok_def fade_def by simp
qed

lemma sig_get_fade:
  assumes "signals_ok s" "k < numLayers s" "sig_isInBounds s l"
  shows "sig_get (fade s k) k l = (if sig_get s k l > 0 then sig_get s k l - 1 else 0)"
proof -
  let ?i = "nat (sig_idx s (cx l) (cy l))"
  from assms have kl: "k < length (layers s)" by (simp add: signals_ok_def)
  then have "layers s ! k \<in> set (layers s)" by simp
  with assms(1) have len: "length (layers s ! k) = nat (Signals.sizeX s * Signals.sizeY s)"
    by (simp add: signals_ok_def)
  from sig_idx_bounds [OF assms(3)] len have il: "?i < length (layers s ! k)"
    by auto
  have inb: "sig_isInBounds (fade s k) l"
    using assms(3) by (simp add: fade_def sig_isInBounds_def)
  have g: "sig_get s k l = layers s ! k ! ?i"
    using assms by (simp add: sig_get_def)
  have "sig_get (fade s k) k l = layers (fade s k) ! k ! ?i"
    using inb assms(2) by (simp add: sig_get_def fade_def sig_idx_def)
  also have "\<dots> = (let v = layers s ! k ! ?i in if v > 0 then u8 (max 0 (v - 1)) else v)"
    using assms(2) kl il by (simp add: fade_def)
  finally show ?thesis
    using sig_get_range [OF assms(1), of k l] g by (simp add: Let_def u8_def)
qed

lemma fold_ops_ok: "signals_ok s \<Longrightarrow> signals_ok (fold apply_signal_op ops s)"
proof (induction ops arbitrary: s)
  case Nil
  then show ?case by simp
next
  case (Cons a ops)
  have "signals_ok (apply_signal_op a s)"
    using Cons.prems by (cases a) (simp_all add: emit_ok fade_ok)
  then show ?case using Cons.IH by simp
qed

text \<open>
  Claim C7. After any sequence of \<^verbatim>\<open>emit\<close> and \<^verbatim>\<open>fade\<close> calls on zeroed layers every
  cell of every layer is between 0 and 255. On such a state, \<^verbatim>\<open>emit\<close> changes a cell
  of the layer that is in bounds and whose offset from the centre the loops reach and
  the test \<^verbatim>\<open>dx * dx + dy * dy <= radius * radius\<close> passes to the minimum of 255 and
  its old value plus \<open>max(1, round(255 * (1 - dist / (radius + 1))))\<close>, and leaves the
  other cells of the layer as they are; the sum, the quotient, the difference, the
  product and the square root are those of doubles, for a radius below \<^verbatim>\<open>2^26\<close>. For a
  radius that is not negative and whose square is a double the offsets are those of the
  disc of that radius. \<^verbatim>\<open>fade\<close> takes 1 off every cell of the layer that is not zero
  and leaves zero cells at zero.
\<close>

theorem signals_bounds_emit_fade:
  assumes "s = fold apply_signal_op ops (Signals_new sx sy n)"
  shows "(\<forall>L \<in> set (layers s). \<forall>v \<in> set L. 0 \<le> v \<and> v \<le> 255) \<and>
    (\<forall>k c r l. k < numLayers s \<and> sig_isInBounds s l \<and> r < 67108864 \<longrightarrow>
       sig_get (emit s k c r) k l =
         (if in_emit_range r (cx l - cx c) (cy l - cy c)
          then min 255 (sig_get s k l +
                 max 1 (round (dbl (255 * dbl (1 - dbl (dbl (sqrt (real_of_int
                   ((cx l - cx c) * (cx l - cx c) + (cy l - cy c) * (cy l - cy c)))) /
                   dbl (r + 1)))))))
          else sig_get s k l)) \<and>
    (\<forall>r dx dy. 0 \<le> r \<and> dbl (r * r) = r * r \<longrightarrow>
       in_emit_range r dx dy = (real_of_int (dx * dx + dy * dy) \<le> r * r)) \<and>
    (\<forall>k l. k < numLayers s \<and> sig_isInBounds s l \<longrightarrow>
       sig_get (fade s k) k l = (if sig_get s k l > 0 then sig_get s k l - 1 else 0))"
proof -
  have ok: "signals_ok s"
    unfolding assms using Signals_new_ok by (rule fold_ops_ok)
  then have 1: "\<forall>L \<in> set (layers s). \<forall>v \<in> set L. 0 \<le> v \<and> v \<le> 255"
    by (simp add: signals_ok_def)
  have 2: "\<forall>k c r l. k < numLayers s \<and> sig_isInBounds s l \<and> r < 67108864 \<longrightarrow>
       sig_get (emit s k c r) k l =
         (if in_emit_range r (cx l - cx c) (cy l - cy c)
          then min 255 (sig_get s k l +
                 max 1 (round (dbl (255 * dbl (1 - dbl (dbl (sqrt (real_of_int
                   ((cx l - cx c) * (cx l - cx c) + (cy l - cy c) * (cy l - cy c)))) /
                   dbl (r + 1)))))))
          else sig_get s k l)"
    using sig_get_emit [OF ok] by (simp add: emit_amount_def)
  have 3: "\<forall>r dx dy. 0 \<le> r \<and> dbl (r * r) = r * r \<longrightarrow>
       in_emit_range r dx dy = (real_of_int (dx * dx + dy * dy) \<le> r * r)"
    using in_emit_range_disc by blast
  have 4: "\<forall>k l. k < numLayers s \<and> sig_isInBounds s l \<longrightarrow>
       sig_get (fade s k) k l = (if sig_get s k l > 0 then sig_get s k l - 1 else 0)"
    using sig_get_fade [OF ok] by simp
  from 1 2 3 4 show ?thesis by (intro conjI)
qed


lemma upto_m1_1: "[- 1..1] = [- 1, 0, (1::int)]"
  by (simp add: upto.simps)

lemma round_half: "round (255 / 2 :: real) = 128"
  by (simp add: round_def)

lemma emit_example:
  "emit (Signals_new 3 3 1) 0 \<lparr> cx = 1, cy = 1 \<rparr> 1 =
     \<lparr> Signals.sizeX = 3, sizeY = 3, numLayers = 1,
       layers = [[0, 128, 0, 128, 255, 128, 0, 128, 0]] \<rparr>"
  by (simp add: emit_def upto_m1_1 emit_cell_def sig_isInBounds_def Signals_new_def
      increment_def sig_idx_def sig_store_def u8_def Let_def round_half eval_nat_numeral
      dbl_0 dbl_1 dbl_2 dbl_half dbl_255_2 dbl_255)


theorem signals_bounds_emit_fade_witness:
  "fold apply_signal_op [Emit 0 \<lparr> cx = 1, cy = 1 \<rparr> 1] (Signals_new 3 3 1) =
     \<lparr> Signals.sizeX = 3, sizeY = 3, numLayers = 1,
       layers = [[0, 128, 0, 128, 255, 128, 0, 128, 0]] \<rparr> \<and>
   sig_get (emit \<lparr> Signals.sizeX = 3, sizeY = 3, numLayers = 1,
       layers = [[0, 128, 0, 128, 255, 128, 0, 128, 0]] \<rparr> 0 \<lparr> cx = 1, cy = 1 \<rparr> 1)
     0 \<lparr> cx = 1, cy = 0 \<rparr> = 255 \<and>
   in_emit_range 1 0 (- 1) \<and> \<not> in_emit_range 1 1 (- 1) \<and>
   sig_get (fade \<lparr> Signals.sizeX = 3, sizeY = 3, numLayers = 1,
       layers = [[0, 128, 0, 128, 255, 128, 0, 128, 0]] \<rparr> 0) 0 \<lparr> cx = 1, cy = 1 \<rparr> = 254 \<and>
   sig_get (fade \<lparr> Signals.sizeX = 3, sizeY = 3, numLayers = 1,
       layers = [[0, 128, 0, 128, 255, 128, 0, 128, 0]] \<rparr> 0) 0 \<lparr> cx = 0, cy = 0 \<rparr> = 0"
proof -
  let ?s = "\<lparr> Signals.sizeX = 3, sizeY = 3, numLayers = 1,
       layers = [[0, 128, 0, 128, 255, 128, 0, 128, 0]] \<rparr>"
  have e: "?s = fold apply_signal_op [Emit 0 \<lparr> cx = 1, cy = 1 \<rparr> 1] (Signals_new 3 3 1)"
    using emit_example by simp
  note t = signals_bounds_emit_fade [OF e]
  have g: "sig_get ?s 0 \<lparr> cx = 1, cy = 0 \<rparr> = 128" "sig_get ?s 0 \<lparr> cx = 1, cy = 1 \<rparr> = 255"
    "sig_get ?s 0 \<lparr> cx = 0, cy = 0 \<rparr> = 0"
    by (simp_all add: sig_get_def sig_isInBounds_def sig_idx_def eval_nat_numeral)
  have b: "sig_isInBounds ?s \<lparr> cx = 1, cy = 0 \<rparr>" "sig_isInBounds ?s \<lparr> cx = 1, cy = 1 \<rparr>"
    "sig_isInBounds ?s \<lparr> cx = 0, cy = 0 \<rparr>" "0 < numLayers ?s"
    by (simp_all add: sig_isInBounds_def)
  note em = t [THEN conjunct2, THEN conjunct1, rule_format,
      where k = 0 and c = "\<lparr> cx = 1, cy = 1 \<rparr>" and r = 1 and l = "\<lparr> cx = 1, cy = 0 \<rparr>"]
  note dc = t [THEN conjunct2, THEN conjunct2, THEN conjunct1, rule_format, where r = 1]
  note fd = t [THEN conjunct2, THEN conjunct2, THEN conjunct2, rule_format]
  have d: "in_emit_range 1 0 (- 1)" "\<not> in_emit_range 1 1 (- 1)"
    using dc [of 0 "- 1"] dc [of 1 "- 1"] by (simp_all add: dbl_1)
  have 1: "sig_get (emit ?s 0 \<lparr> cx = 1, cy = 1 \<rparr> 1) 0 \<lparr> cx = 1, cy = 0 \<rparr> = 255"
    using em b g d by (simp add: round_half dbl_1 dbl_2 dbl_half dbl_255_2)
  have 2: "sig_get (fade ?s 0) 0 \<lparr> cx = 1, cy = 1 \<rparr> = 254"
    using fd [of 0 "\<lparr> cx = 1, cy = 1 \<rparr>"] b g by simp
  have 3: "sig_get (fade ?s 0) 0 \<lparr> cx = 0, cy = 0 \<rparr> = 0"
    using fd [of 0 "\<lparr> cx = 0, cy = 0 \<rparr>"] b g by simp
  from e 1 2 3 d show ?thesis by simp
qed

text \<open>
  The strength is not that of the exact quotient. At radius 5 and distance 5 the
  doubles give \<open>255 * (1 - 5 / 6) = 42.49999999999999\<close>, rounded to 42, where the exact
  product is 42.5, rounded to 43. At the radius 1.5 of \<^verbatim>\<open>executeActions\<close> the square
  2.25 is a double, and the amounts for the distances 0 and 1 are 255 and 153.
\<close>

lemma emit_amount_5_5: "emit_amount 5 5 0 = 42"
proof -
  have a: "sqrt (real_of_int (5 * 5 + 0 * 0)) = 5" "(5::real) + 1 = 6"
    by simp_all
  show ?thesis
    unfolding emit_amount_def a dbl_5 dbl_6 dbl_5_6 dbl_1_6 dbl_255_6
    by (simp add: round_def)
qed

lemma emit_amount_exact_5_5:
  "max 1 (round (255 * (1 - sqrt (real_of_int (5 * 5 + 0 * 0)) / (5 + 1)) :: real)) = 43"
  by (simp add: round_def)

lemma dbl_9_4: "dbl (3 / 2 * (3 / 2)) = 3 / 2 * (3 / 2)"
  by (subst dbl_eval [where e = "- 51"]) (simp_all add: pow2_def round_even_def)

lemma dbl_5_2: "dbl (3 / 2 + 1) = 5 / 2"
  by (subst dbl_eval [where e = "- 51"]) (simp_all add: pow2_def round_even_def)

lemma dbl_2_5: "dbl (1 / (5 / 2)) = 3602879701896397 / 9007199254740992"
  by (subst dbl_eval [where e = "- 54"]) (simp_all add: pow2_def round_even_def)

lemma dbl_3_5:
  "dbl (1 - 3602879701896397 / 9007199254740992) = 5404319552844595 / 9007199254740992"
  by (subst dbl_eval [where e = "- 53"]) (simp_all add: pow2_def round_even_def)

lemma dbl_153: "dbl (255 * (5404319552844595 / 9007199254740992)) = 153"
  by (subst dbl_eval [where e = "- 45"]) (simp_all add: pow2_def round_even_def)

lemma emit_amount_default:
  "emit_amount (3 / 2) 0 0 = 255" "emit_amount (3 / 2) 1 0 = 153"
proof -
  have a: "sqrt (real_of_int (0 * 0 + 0 * 0)) = 0" "sqrt (real_of_int (1 * 1 + 0 * 0)) = 1"
    "(0::real) / (5 / 2) = 0" "(1::real) - 0 = 1" "(255::real) * 1 = 255"
    by simp_all
  show "emit_amount (3 / 2) 0 0 = 255"
    unfolding emit_amount_def a dbl_0 dbl_1 dbl_5_2 dbl_255 by simp
  show "emit_amount (3 / 2) 1 0 = 153"
    unfolding emit_amount_def a dbl_1 dbl_5_2 dbl_2_5 dbl_3_5 dbl_153 by simp
qed

section \<open>The left-right signal sensor\<close>

lemma js_rem_range8: "0 \<le> js_rem (js_rem a 8 + 8) 8 \<and> js_rem (js_rem a 8 + 8) 8 < 8"
proof -
  have "0 \<le> \<bar>a\<bar> mod 8" "\<bar>a\<bar> mod 8 < 8"
    by simp_all
  then have "- 8 < js_rem a 8 \<and> js_rem a 8 < 8"
    by (auto simp: js_rem_def sgn_if)
  then have p: "0 < js_rem a 8 + 8" by simp
  then show ?thesis
    using js_rem_nonneg [of "js_rem a 8 + 8" 8] by simp
qed

lemma asNormalizedCoord_rotate: "\<exists>c. asNormalizedCoord (rotate d n) = Some c"
  using js_rem_range8 [of "dir9 d + n"]
  by (simp add: asNormalizedCoord_def rotate_def Compass_CENTER_def)

lemma coord_eta: "\<lparr> cx = cx c, cy = cy c \<rparr> = c"
  by (cases c) simp

lemma upto_0: "[- 0..(0::int)] = [0]"
  by (simp add: upto.simps)

lemma getSignalDensity_single:
  assumes "0 \<le> r" "r < 1"
  shows "getSignalDensity s k c r = real_of_int (sig_get s k c) / 255"
proof -
  from assms have f: "\<lfloor>r\<rfloor> = 0" by (simp add: floor_eq_iff)
  have "0 \<le> r * r" using assms by simp
  then show ?thesis
    by (simp add: getSignalDensity_def f upto_0 density_cell_def sig_get_def Let_def coord_eta)
qed


lemma rotate_cases:
  obtains right left where
    "asNormalizedCoord (rotate90CW d) = Some right" "asNormalizedCoord (rotate90CCW d) = Some left"
  using asNormalizedCoord_rotate [of d 2] asNormalizedCoord_rotate [of d "- 2"]
  by (auto simp: rotate90CW_def rotate90CCW_def)

text \<open>
  Claim C9, amended. The sensor \<^verbatim>\<open>SIGNAL0_LR\<close> returns \<open>right / (right + left)\<close>,
  where \<open>right\<close> and \<open>left\<close> are the densities that \<^verbatim>\<open>getSignalDensity\<close> computes for
  layer 0 over the neighbourhood of radius \<^verbatim>\<open>signalSensorRadius\<close> around the cell one
  step to the right and to the left of the last move (the average of the cells in
  bounds divided by 255), each taken as 0 when that cell is outside the grid; it returns
  one half when their sum is not positive. They are the values of the two single cells
  when the radius is below 1: then the sensor is the quotient the claim states.
\<close>

theorem SIGNAL0_LR_neighbourhood_densities:
  "(\<exists>right left.
      asNormalizedCoord (rotate90CW (lastMoveDir indiv)) = Some right \<and>
      asNormalizedCoord (rotate90CCW (lastMoveDir indiv)) = Some left \<and>
      getSensor_SIGNAL0_LR indiv gr sg prm =
        Inr (let rLoc = coordAdd (loc indiv) right;
                 lLoc = coordAdd (loc indiv) left;
                 rSig = (if isInBounds gr rLoc
                         then getSignalDensity sg 0 rLoc (signalSensorRadius prm) else 0);
                 lSig = (if isInBounds gr lLoc
                         then getSignalDensity sg 0 lLoc (signalSensorRadius prm) else 0)
             in if rSig + lSig > 0 then rSig / (rSig + lSig) else 1 / 2)) \<and>
   (signals_ok sg \<and> Signals.sizeX sg = Grid.sizeX gr \<and>
    Signals.sizeY sg = Grid.sizeY gr \<and>
    0 \<le> signalSensorRadius prm \<and> signalSensorRadius prm < 1 \<longrightarrow>
      getSensor_SIGNAL0_LR indiv gr sg prm = spec_SIGNAL0_LR indiv sg)"
proof -
  obtain right left where
    r: "asNormalizedCoord (rotate90CW (lastMoveDir indiv)) = Some right"
    and l: "asNormalizedCoord (rotate90CCW (lastMoveDir indiv)) = Some left"
    by (rule rotate_cases)
  have 1: "getSensor_SIGNAL0_LR indiv gr sg prm =
        Inr (let rLoc = coordAdd (loc indiv) right;
                 lLoc = coordAdd (loc indiv) left;
                 rSig = (if isInBounds gr rLoc
                         then getSignalDensity sg 0 rLoc (signalSensorRadius prm) else 0);
                 lSig = (if isInBounds gr lLoc
                         then getSignalDensity sg 0 lLoc (signalSensorRadius prm) else 0)
             in if rSig + lSig > 0 then rSig / (rSig + lSig) else 1 / 2)"
    by (simp add: getSensor_SIGNAL0_LR_def r l Let_def)
  have 2: "getSensor_SIGNAL0_LR indiv gr sg prm = spec_SIGNAL0_LR indiv sg"
    if ok: "signals_ok sg" and sx: "Signals.sizeX sg = Grid.sizeX gr"
      and sy: "Signals.sizeY sg = Grid.sizeY gr"
      and r0: "0 \<le> signalSensorRadius prm" and r1: "signalSensorRadius prm < 1"
  proof -
    let ?R = "coordAdd (loc indiv) right" and ?L = "coordAdd (loc indiv) left"
    let ?r = "real_of_int (sig_get sg 0 ?R)" and ?l = "real_of_int (sig_get sg 0 ?L)"
    have inb: "isInBounds gr c = sig_isInBounds sg c" for c
      by (simp add: isInBounds_def sig_isInBounds_def sx sy)
    have d: "(if isInBounds gr c
              then getSignalDensity sg 0 c (signalSensorRadius prm) else 0)
             = real_of_int (sig_get sg 0 c) / 255" for c
      by (simp add: getSignalDensity_single [OF r0 r1] inb sig_get_def)
    have nn: "0 \<le> ?r" "0 \<le> ?l"
      using sig_get_range [OF ok] by simp_all
    have "getSensor_SIGNAL0_LR indiv gr sg prm =
        Inr (if ?r / 255 + ?l / 255 > 0 then (?r / 255) / (?r / 255 + ?l / 255) else 1 / 2)"
      unfolding 1 Let_def d by simp
    also have "\<dots> = Inr (if ?r = 0 \<and> ?l = 0 then 1 / 2 else ?r / (?r + ?l))"
    proof (cases "?r = 0 \<and> ?l = 0")
      case True
      then show ?thesis by simp
    next
      case False
      with nn have p: "0 < ?r + ?l" by linarith
      then have "0 < ?r / 255 + ?l / 255" by simp
      moreover have "(?r / 255) / (?r / 255 + ?l / 255) = ?r / (?r + ?l)"
        using p by (simp add: field_simps)
      ultimately show ?thesis using False by simp
    qed
    finally show ?thesis
      by (simp add: spec_SIGNAL0_LR_def r l Let_def)
  qed
  from r l 1 2 show ?thesis by blast
qed


lemma upto_m2_2: "[- 2..2] = [- 2, - 1, 0, 1, (2::int)]"
  by (simp add: upto.simps)

lemma lr_dirs:
  "asNormalizedCoord (rotate90CW (lastMoveDir lr_indiv)) = Some \<lparr> cx = 1, cy = 0 \<rparr>"
  "asNormalizedCoord (rotate90CCW (lastMoveDir lr_indiv)) = Some \<lparr> cx = - 1, cy = 0 \<rparr>"
  by (simp_all add: lr_indiv_def rotate90CW_def rotate90CCW_def rotate_def asNormalizedCoord_def
      Compass_N_def Compass_CENTER_def js_rem_def DIR_AS_COORD_def eval_nat_numeral)

lemma lr_density_right:
  "getSignalDensity lr_signals 0 \<lparr> cx = 2, cy = 1 \<rparr> 2 = 1 / 7"
proof -
  have f: "\<lfloor>2::real\<rfloor> = 2" by simp
  show ?thesis
    unfolding getSignalDensity_def Let_def f upto_m2_2
    by (simp add: lr_signals_def density_cell_def sig_isInBounds_def sig_idx_def Let_def
        eval_nat_numeral)
qed

lemma lr_density_left:
  "getSignalDensity lr_signals 0 \<lparr> cx = 0, cy = 1 \<rparr> 2 = 0"
proof -
  have f: "\<lfloor>2::real\<rfloor> = 2" by simp
  show ?thesis
    unfolding getSignalDensity_def Let_def f upto_m2_2
    by (simp add: lr_signals_def density_cell_def sig_isInBounds_def sig_idx_def Let_def
        eval_nat_numeral)
qed

text \<open>
  Claim C9 fails as stated. With the default radius 2, the individual in the middle
  faces north, the cells to its right and left are both zero, and the corner cell north
  of the right one holds 255: the single-cell quotient is one half, the sensor returns 1.
\<close>

theorem SIGNAL0_LR_single_cell_counterexample:
  "getSensor_SIGNAL0_LR lr_indiv (Grid_new 3 3) lr_signals (lr_params 2) = Inr 1 \<and>
   spec_SIGNAL0_LR lr_indiv lr_signals = Inr (1 / 2)"
proof -
  have "getSensor_SIGNAL0_LR lr_indiv (Grid_new 3 3) lr_signals (lr_params 2) = Inr 1"
    by (simp add: getSensor_SIGNAL0_LR_def lr_dirs Let_def coordAdd_def isInBounds_def
        Grid_new_def lr_params_def lr_density_right lr_density_left)
      (simp add: lr_indiv_def lr_density_right lr_density_left)
  moreover have "spec_SIGNAL0_LR lr_indiv lr_signals = Inr (1 / 2)"
    by (simp add: spec_SIGNAL0_LR_def lr_dirs Let_def coordAdd_def)
      (simp add: lr_indiv_def lr_signals_def sig_get_def sig_isInBounds_def sig_idx_def
        eval_nat_numeral)
  ultimately show ?thesis by simp
qed


theorem SIGNAL0_LR_neighbourhood_densities_witness:
  "signals_ok lr_signals \<and>
   getSensor_SIGNAL0_LR (lr_indiv\<lparr>loc := \<lparr> cx = 1, cy = 0 \<rparr>\<rparr>) (Grid_new 3 3) lr_signals
     (lr_params (1 / 2)) = Inr 1"
proof -
  let ?i = "lr_indiv\<lparr>loc := \<lparr> cx = 1, cy = 0 \<rparr>\<rparr>"
  have ok: "signals_ok lr_signals"
    by (simp add: signals_ok_def lr_signals_def)
  have sz: "Signals.sizeX lr_signals = Grid.sizeX (Grid_new 3 3)"
    "Signals.sizeY lr_signals = Grid.sizeY (Grid_new 3 3)"
    "0 \<le> signalSensorRadius (lr_params (1 / 2))" "signalSensorRadius (lr_params (1 / 2)) < 1"
    by (simp_all add: lr_signals_def Grid_new_def lr_params_def)
  have d: "lastMoveDir ?i = lastMoveDir lr_indiv"
    by simp
  have sp: "spec_SIGNAL0_LR ?i lr_signals = Inr 1"
    unfolding spec_SIGNAL0_LR_def d
    by (simp add: lr_dirs Let_def coordAdd_def)
      (simp add: lr_indiv_def lr_signals_def sig_get_def sig_isInBounds_def sig_idx_def
        eval_nat_numeral)
  from SIGNAL0_LR_neighbourhood_densities [of ?i "Grid_new 3 3" lr_signals "lr_params (1 / 2)"]
    ok sz sp
  show ?thesis by simp
qed


section \<open>The step keeps the grid and the population consistent\<close>

text \<open>
  Cells of the grid: an index inside the array for every coordinate in bounds, a
  different one for different coordinates, and what a write changes.
\<close>

lemma grid_idx_bounds:
  assumes "isInBounds g l" "grid_ok g"
  shows "0 \<le> grid_idx g (cx l) (cy l)" and "grid_idx g (cx l) (cy l) < int (length (data g))"
proof -
  let ?w = "Grid.sizeX g" and ?h = "Grid.sizeY g"
  from assms have b: "0 \<le> cx l" "cx l < ?w" "0 \<le> cy l" "cy l < ?h"
    by (simp_all add: isInBounds_def)
  then have "0 \<le> cy l * ?w" by simp
  with b show "0 \<le> grid_idx g (cx l) (cy l)"
    by (simp add: grid_idx_def)
  from b have "cy l + 1 \<le> ?h" by simp
  then have "(cy l + 1) * ?w \<le> ?h * ?w"
    using b by (intro mult_right_mono) simp_all
  then have "grid_idx g (cx l) (cy l) < ?w * ?h"
    using b by (simp add: grid_idx_def algebra_simps)
  moreover have "0 \<le> ?w * ?h" using b by simp
  ultimately show "grid_idx g (cx l) (cy l) < int (length (data g))"
    using assms(2) by (simp add: grid_ok_def)
qed

lemma grid_idx_inj:
  assumes "isInBounds g l" "isInBounds g l'"
    and "grid_idx g (cx l) (cy l) = grid_idx g (cx l') (cy l')"
  shows "l = l'"
proof -
  let ?w = "Grid.sizeX g"
  from assms(1,2) have b: "0 \<le> cx l" "cx l < ?w" "0 \<le> cx l'" "cx l' < ?w"
    by (simp_all add: isInBounds_def)
  from assms(3) have e: "cy l * ?w + cx l = cy l' * ?w + cx l'"
    by (simp add: grid_idx_def)
  have "(cy l * ?w + cx l) div ?w = cy l" "(cy l' * ?w + cx l') div ?w = cy l'"
    using b by simp_all
  with e have y: "cy l = cy l'" by simp
  with e have "cx l = cx l'" by simp
  with y show ?thesis by (cases l, cases l') simp
qed

lemma shape_grid_set [simp]:
  "Grid.sizeX (grid_set g l v) = Grid.sizeX g"
  "Grid.sizeY (grid_set g l v) = Grid.sizeY g"
  "length (data (grid_set g l v)) = length (data g)"
  "isInBounds (grid_set g l v) c = isInBounds g c"
  "grid_idx (grid_set g l v) a b = grid_idx g a b"
  "grid_ok (grid_set g l v) = grid_ok g"
  by (simp_all add: grid_set_def Let_def isInBounds_def grid_idx_def grid_ok_def)

lemma grid_at_set:
  assumes "grid_ok g" "isInBounds g l" "isInBounds g l'"
  shows "grid_at (grid_set g l v) l' = (if l' = l then Some (word_of_int v) else grid_at g l')"
proof -
  let ?i = "grid_idx g (cx l) (cy l)" and ?j = "grid_idx g (cx l') (cy l')"
  note bi = grid_idx_bounds [OF assms(2,1)] and bj = grid_idx_bounds [OF assms(3,1)]
  have ne: "nat ?i = nat ?j \<longleftrightarrow> l' = l"
    using grid_idx_inj [OF assms(3,2)] bi bj by auto
  have "data (grid_set g l v) = (data g)[nat ?i := word_of_int v]"
    using bi by (simp add: grid_set_def Let_def)
  then have "grid_at (grid_set g l v) l' = Some ((data g)[nat ?i := word_of_int v] ! nat ?j)"
    using bj by (simp add: grid_at_def Let_def)
  moreover have "grid_at g l' = Some (data g ! nat ?j)"
    using bj by (simp add: grid_at_def Let_def)
  ultimately show ?thesis
    using ne bi bj by (simp add: nth_list_update)
qed

lemma barriers_kept_refl: "barriers_kept g g"
  by (simp add: barriers_kept_def)

lemma barriers_kept_trans:
  "barriers_kept g g' \<Longrightarrow> barriers_kept g' g'' \<Longrightarrow> barriers_kept g g''"
  by (simp add: barriers_kept_def)

lemma barriers_kept_set:
  assumes "grid_at g l \<noteq> Some BARRIER"
  shows "barriers_kept g (grid_set g l v)"
proof -
  let ?i = "grid_idx g (cx l) (cy l)"
  show ?thesis
  proof (cases "0 \<le> ?i \<and> ?i < int (length (data g))")
    case False
    then have "grid_set g l v = g" by (auto simp: grid_set_def Let_def)
    then show ?thesis by (simp add: barriers_kept_refl)
  next
    case True
    with assms have nb: "data g ! nat ?i \<noteq> BARRIER"
      by (simp add: grid_at_def Let_def)
    have d: "data (grid_set g l v) = (data g)[nat ?i := word_of_int v]"
      using True by (simp add: grid_set_def Let_def)
    have "(data g)[nat ?i := word_of_int v] ! i = BARRIER"
      if "i < length (data g)" "data g ! i = BARRIER" for i
    proof -
      from that nb have "i \<noteq> nat ?i" by auto
      with that show ?thesis by simp
    qed
    then show ?thesis
      unfolding barriers_kept_def d by simp
  qed
qed

lemma unat_word16_of_nat:
  assumes "i < 65535"
  shows "unat (word_of_nat i :: 16 word) = i"
proof (rule of_nat_inverse [OF refl])
  have "(2::nat) ^ LENGTH(16) = 65536" by simp
  with assms show "i < 2 ^ LENGTH(16)" by linarith
qed

lemma word16_of_nat_inj:
  assumes "i < 65535" "j < 65535" "(word_of_nat i :: 16 word) = word_of_nat j"
  shows "i = j"
  using unat_word16_of_nat [OF assms(1)] unat_word16_of_nat [OF assms(2)] assms(3)
  by metis

lemma word16_of_nat_not_barrier:
  assumes "i < 65535"
  shows "(word_of_nat i :: 16 word) \<noteq> BARRIER"
proof
  assume "(word_of_nat i :: 16 word) = BARRIER"
  then have "unat (word_of_nat i :: 16 word) = unat (0xFFFF :: 16 word)"
    by (simp only: BARRIER_def)
  then have "i = 65535"
    by (simp only: unat_word16_of_nat [OF assms]) simp
  with assms show False by simp
qed

lemma word16_of_nat_not_empty:
  assumes "0 < i" "i < 65535"
  shows "(word_of_nat i :: 16 word) \<noteq> EMPTY"
proof
  assume "(word_of_nat i :: 16 word) = EMPTY"
  then have "unat (word_of_nat i :: 16 word) = unat (0 :: 16 word)"
    by (simp only: EMPTY_def)
  then have "i = 0"
    by (simp only: unat_word16_of_nat [OF assms(2)]) simp
  with assms show False by simp
qed


lemma on_grid_other_cell:
  assumes "on_grid inds g" "i < length inds" "inds ! i = Some a" "alive a"
    and "k < length inds" "inds ! k = Some b" "alive b" "i \<noteq> k"
  shows "loc a \<noteq> loc b"
proof
  assume e: "loc a = loc b"
  from assms(1,2,3,4) have a: "grid_at g (loc a) = Some (word_of_nat i)" "i < 65535"
    by (auto simp: on_grid_def)
  from assms(1,5,6,7) have b: "grid_at g (loc b) = Some (word_of_nat k)" "k < 65535"
    by (auto simp: on_grid_def)
  from a b e have "(word_of_nat i :: 16 word) = word_of_nat k" by simp
  with word16_of_nat_inj [OF a(2) b(2)] assms(8) show False by blast
qed

lemma death_step_inv:
  assumes "grid_ok g" "on_grid inds g"
  shows "case death_step r (d, inds, g) of (d', inds', g') \<Rightarrow>
           grid_ok g' \<and> on_grid inds' g' \<and> barriers_kept g g' \<and>
           length inds' = length inds \<and> (dirs_ok inds \<longrightarrow> dirs_ok inds') \<and>
           Grid.sizeX g' = Grid.sizeX g \<and> Grid.sizeY g' = Grid.sizeY g"
proof -
  let ?k = "DeathRecord.indivIndex r"
  show ?thesis
  proof (cases "peeps_get inds ?k")
    case None
    then show ?thesis using assms by (simp add: death_step_def barriers_kept_refl)
  next
    case (Some ind)
    show ?thesis
    proof (cases "alive ind")
      case False
      with Some show ?thesis using assms by (simp add: death_step_def barriers_kept_refl)
    next
      case True
      from Some have k: "?k < length inds" "inds ! ?k = Some ind"
        by (auto simp: peeps_get_def split: if_splits)
      let ?inds = "inds[?k := Some (ind\<lparr>alive := False\<rparr>)]"
      let ?g = "grid_set g (loc ind) 0"
      have st: "death_step r (d, inds, g) = (d + 1, ?inds, ?g)"
        using Some True by (simp add: death_step_def)
      from assms(2) k True have kk: "isInBounds g (loc ind)"
        "grid_at g (loc ind) = Some (word_of_nat ?k)" "?k < 65535"
        by (auto simp: on_grid_def)
      have og: "on_grid ?inds ?g"
        unfolding on_grid_def
      proof (intro allI impI)
        fix i x assume i: "i < length ?inds" and x: "?inds ! i = Some x \<and> alive x"
        then have ik: "i \<noteq> ?k" using k by auto
        with x have xi: "inds ! i = Some x" "alive x" by simp_all
        from i have il: "i < length inds" by simp
        from assms(2) il xi have o: "isInBounds g (loc x)"
          "grid_at g (loc x) = Some (word_of_nat i)" "0 < i" "i < 65535"
          by (auto simp: on_grid_def)
        have "loc x \<noteq> loc ind"
          using on_grid_other_cell [OF assms(2) il xi k True ik] .
        then have "grid_at ?g (loc x) = grid_at g (loc x)"
          using grid_at_set [OF assms(1) kk(1) o(1)] by simp
        with o show "isInBounds ?g (loc x) \<and> grid_at ?g (loc x) = Some (word_of_nat i) \<and>
            0 < i \<and> i < 65535"
          by simp
      qed
      have bk: "barriers_kept g ?g"
        using kk(2) word16_of_nat_not_barrier [OF kk(3)] by (intro barriers_kept_set) simp
      have dk: "dirs_ok ?inds" if "dirs_ok inds"
        unfolding dirs_ok_def
      proof (intro allI impI)
        fix i x assume i: "i < length ?inds" and x: "?inds ! i = Some x"
        show "0 \<le> dir9 (lastMoveDir x) \<and> dir9 (lastMoveDir x) \<le> 8"
        proof (cases "i = ?k")
          case True
          with x k have "x = ind\<lparr>alive := False\<rparr>" by simp
          with that k show ?thesis by (auto simp: dirs_ok_def)
        next
          case False
          with x i that show ?thesis by (auto simp: dirs_ok_def)
        qed
      qed
      show ?thesis
        unfolding st using assms(1) og bk dk by simp
    qed
  qed
qed

lemma move_step_inv:
  assumes "grid_ok g" "on_grid inds g"
  shows "case move_step r (inds, g) of (inds', g') \<Rightarrow>
           grid_ok g' \<and> on_grid inds' g' \<and> barriers_kept g g' \<and>
           length inds' = length inds \<and> (dirs_ok inds \<longrightarrow> dirs_ok inds') \<and>
           Grid.sizeX g' = Grid.sizeX g \<and> Grid.sizeY g' = Grid.sizeY g"
proof -
  let ?k = "MoveRecord.indivIndex r" and ?c = "newLoc r"
  show ?thesis
  proof (cases "peeps_get inds ?k")
    case None
    then show ?thesis using assms by (simp add: move_step_def barriers_kept_refl)
  next
    case (Some ind)
    show ?thesis
    proof (cases "alive ind \<and> isInBounds g ?c \<and> isEmptyAt g ?c")
      case False
      with Some show ?thesis using assms by (auto simp: move_step_def barriers_kept_refl)
    next
      case True
      from Some have k: "?k < length inds" "inds ! ?k = Some ind"
        by (auto simp: peeps_get_def split: if_splits)
      let ?inds = "inds[?k := Some (ind\<lparr>loc := ?c\<rparr>)]"
      let ?g1 = "grid_set g (loc ind) 0"
      let ?g = "grid_set ?g1 ?c (int ?k)"
      have st: "move_step r (inds, g) = (?inds, ?g)"
        using Some True by (simp add: move_step_def)
      from True have al: "alive ind" and cb: "isInBounds g ?c" and ce: "grid_at g ?c = Some EMPTY"
        by (simp_all add: isEmptyAt_def)
      from assms(2) k al have kk: "isInBounds g (loc ind)"
        "grid_at g (loc ind) = Some (word_of_nat ?k)" "0 < ?k" "?k < 65535"
        by (auto simp: on_grid_def)
      have ok1: "grid_ok ?g1" using assms(1) by simp
      have cb1: "isInBounds ?g1 ?c" using cb by simp
      have at: "grid_at ?g l = (if l = ?c then Some (word_of_nat ?k)
                               else if l = loc ind then Some 0 else grid_at g l)"
        if "isInBounds g l" for l
      proof -
        have "grid_at ?g l = (if l = ?c then Some (word_of_int (int ?k)) else grid_at ?g1 l)"
          using grid_at_set [OF ok1 cb1, of l] that by simp
        moreover have "grid_at ?g1 l = (if l = loc ind then Some (word_of_int 0) else grid_at g l)"
          using grid_at_set [OF assms(1) kk(1) that] by simp
        ultimately show ?thesis by simp
      qed
      have og: "on_grid ?inds ?g"
        unfolding on_grid_def
      proof (intro allI impI)
        fix i x assume i: "i < length ?inds" and x: "?inds ! i = Some x \<and> alive x"
        show "isInBounds ?g (loc x) \<and> grid_at ?g (loc x) = Some (word_of_nat i) \<and>
            0 < i \<and> i < 65535"
        proof (cases "i = ?k")
          case True
          with x k have "x = ind\<lparr>loc := ?c\<rparr>" by simp
          then have "loc x = ?c" by simp
          with at [OF cb] cb True kk show ?thesis by simp
        next
          case False
          with x have xi: "inds ! i = Some x" "alive x" by simp_all
          from i have il: "i < length inds" by simp
          from assms(2) il xi have o: "isInBounds g (loc x)"
            "grid_at g (loc x) = Some (word_of_nat i)" "0 < i" "i < 65535"
            by (auto simp: on_grid_def)
          have n1: "loc x \<noteq> loc ind"
            using on_grid_other_cell [OF assms(2) il xi k al False] .
          have n2: "loc x \<noteq> ?c"
            using o(2) ce word16_of_nat_not_empty [OF o(3,4)] by auto
          from at [OF o(1)] n1 n2 o show ?thesis by simp
        qed
      qed
      have "barriers_kept g ?g1"
        using kk(2) word16_of_nat_not_barrier [OF kk(4)] by (intro barriers_kept_set) simp
      moreover have "grid_at ?g1 ?c \<noteq> Some BARRIER"
      proof -
        have "grid_at ?g1 ?c = (if ?c = loc ind then Some (word_of_int 0) else grid_at g ?c)"
          using grid_at_set [OF assms(1) kk(1) cb] by simp
        with ce show ?thesis by (simp add: EMPTY_def BARRIER_def)
      qed
      then have "barriers_kept ?g1 ?g" by (rule barriers_kept_set)
      ultimately have bk: "barriers_kept g ?g" by (rule barriers_kept_trans)
      have dk: "dirs_ok ?inds" if "dirs_ok inds"
        unfolding dirs_ok_def
      proof (intro allI impI)
        fix i x assume i: "i < length ?inds" and x: "?inds ! i = Some x"
        show "0 \<le> dir9 (lastMoveDir x) \<and> dir9 (lastMoveDir x) \<le> 8"
        proof (cases "i = ?k")
          case True
          with x k have "x = ind\<lparr>loc := ?c\<rparr>" by simp
          with that k show ?thesis by (auto simp: dirs_ok_def)
        next
          case False
          with x i that show ?thesis by (auto simp: dirs_ok_def)
        qed
      qed
      show ?thesis
        unfolding st using assms(1) og bk dk by simp
    qed
  qed
qed


lemma fold_death_inv:
  assumes "grid_ok g" "on_grid inds g"
  shows "case fold death_step q (d, inds, g) of (d', inds', g') \<Rightarrow>
           grid_ok g' \<and> on_grid inds' g' \<and> barriers_kept g g' \<and>
           length inds' = length inds \<and> (dirs_ok inds \<longrightarrow> dirs_ok inds') \<and>
           Grid.sizeX g' = Grid.sizeX g \<and> Grid.sizeY g' = Grid.sizeY g"
  using assms
proof (induction q arbitrary: d inds g)
  case Nil
  then show ?case by (simp add: barriers_kept_refl)
next
  case (Cons r q)
  obtain d1 inds1 g1 where s1: "death_step r (d, inds, g) = (d1, inds1, g1)"
    by (cases "death_step r (d, inds, g)")
  from death_step_inv [OF Cons.prems, of r d] s1
  have 1: "grid_ok g1" "on_grid inds1 g1" "barriers_kept g g1" "length inds1 = length inds"
    "dirs_ok inds \<longrightarrow> dirs_ok inds1" "Grid.sizeX g1 = Grid.sizeX g" "Grid.sizeY g1 = Grid.sizeY g"
    by simp_all
  obtain d2 inds2 g2 where s2: "fold death_step q (d1, inds1, g1) = (d2, inds2, g2)"
    by (cases "fold death_step q (d1, inds1, g1)")
  from Cons.IH [OF 1(1,2), of d1] s2
  have 2: "grid_ok g2" "on_grid inds2 g2" "barriers_kept g1 g2" "length inds2 = length inds1"
    "dirs_ok inds1 \<longrightarrow> dirs_ok inds2" "Grid.sizeX g2 = Grid.sizeX g1" "Grid.sizeY g2 = Grid.sizeY g1"
    by simp_all
  from 1 2 barriers_kept_trans [OF 1(3) 2(3)] show ?case
    by (simp add: s1 s2)
qed

lemma fold_move_inv:
  assumes "grid_ok g" "on_grid inds g"
  shows "case fold move_step q (inds, g) of (inds', g') \<Rightarrow>
           grid_ok g' \<and> on_grid inds' g' \<and> barriers_kept g g' \<and>
           length inds' = length inds \<and> (dirs_ok inds \<longrightarrow> dirs_ok inds') \<and>
           Grid.sizeX g' = Grid.sizeX g \<and> Grid.sizeY g' = Grid.sizeY g"
  using assms
proof (induction q arbitrary: inds g)
  case Nil
  then show ?case by (simp add: barriers_kept_refl)
next
  case (Cons r q)
  obtain inds1 g1 where s1: "move_step r (inds, g) = (inds1, g1)"
    by (cases "move_step r (inds, g)")
  from move_step_inv [OF Cons.prems, of r] s1
  have 1: "grid_ok g1" "on_grid inds1 g1" "barriers_kept g g1" "length inds1 = length inds"
    "dirs_ok inds \<longrightarrow> dirs_ok inds1" "Grid.sizeX g1 = Grid.sizeX g" "Grid.sizeY g1 = Grid.sizeY g"
    by simp_all
  obtain inds2 g2 where s2: "fold move_step q (inds1, g1) = (inds2, g2)"
    by (cases "fold move_step q (inds1, g1)")
  from Cons.IH [OF 1(1,2)] s2
  have 2: "grid_ok g2" "on_grid inds2 g2" "barriers_kept g1 g2" "length inds2 = length inds1"
    "dirs_ok inds1 \<longrightarrow> dirs_ok inds2" "Grid.sizeX g2 = Grid.sizeX g1" "Grid.sizeY g2 = Grid.sizeY g1"
    by simp_all
  from 1 2 barriers_kept_trans [OF 1(3) 2(3)] show ?case
    by (simp add: s1 s2)
qed

text \<open>The end of a step keeps the invariant and the barriers.\<close>

lemma endOfStep_inv:
  assumes "sim_inv sim"
  shows "sim_inv (endOfStep sim) \<and> barriers_kept (grid sim) (grid (endOfStep sim))"
proof -
  let ?ps = "peeps sim" and ?g = "grid sim"
  from assms have a: "grid_ok ?g" "on_grid (individuals ?ps) ?g" "dirs_ok (individuals ?ps)"
    by (simp_all add: sim_inv_def)
  obtain d inds1 g1 where f1: "fold death_step (deathQueue ?ps) (0, individuals ?ps, ?g) = (d, inds1, g1)"
    by (cases "fold death_step (deathQueue ?ps) (0, individuals ?ps, ?g)")
  from fold_death_inv [OF a(1,2), of "deathQueue ?ps" 0] f1 a(3)
  have 1: "grid_ok g1" "on_grid inds1 g1" "barriers_kept ?g g1" "dirs_ok inds1"
    by simp_all
  let ?ps1 = "?ps\<lparr>individuals := inds1, deathQueue := []\<rparr>"
  have dd: "drainDeathQueue ?ps ?g = (d, ?ps1, g1)"
    by (simp add: drainDeathQueue_def f1)
  obtain inds2 g2 where f2: "fold move_step (moveQueue ?ps1) (inds1, g1) = (inds2, g2)"
    by (cases "fold move_step (moveQueue ?ps1) (inds1, g1)")
  from fold_move_inv [OF 1(1,2), of "moveQueue ?ps1"] f2 1(4)
  have 2: "grid_ok g2" "on_grid inds2 g2" "barriers_kept g1 g2" "dirs_ok inds2"
    by simp_all
  have dm: "drainMoveQueue ?ps1 g1 = (?ps1\<lparr>individuals := inds2, moveQueue := []\<rparr>, g2)"
    using f2 by (simp add: drainMoveQueue_def)
  have e: "grid (endOfStep sim) = g2" "individuals (peeps (endOfStep sim)) = inds2"
    by (simp_all add: endOfStep_def dd dm)
  show ?thesis
    unfolding sim_inv_def e using 2 barriers_kept_trans [OF 1(3) 2(3)] by simp
qed



lemma act_kept_refl: "act_kept st st"
  by (simp add: act_kept_def)

lemma act_kept_trans: "act_kept a b \<Longrightarrow> act_kept b c \<Longrightarrow> act_kept a c"
  by (simp add: act_kept_def)

lemma asNormalizedCoord_valid:
  "0 \<le> dir9 d \<Longrightarrow> dir9 d \<le> 8 \<Longrightarrow> \<exists>c. asNormalizedCoord d = Some c"
  by (simp add: asNormalizedCoord_def)

lemma add_move_ok:
  assumes "\<exists>c. asNormalizedCoord d = Some c" "act_kept st0 st"
  shows "\<exists>st'. add_move d f st = Inr st' \<and> act_kept st0 st'"
  using assms by (auto simp: add_move_def act_kept_def)

lemma unsigned_real_range:
  "0 \<le> (unsigned u :: real) \<and> (unsigned u :: real) < 4294967296" for u :: u32
proof -
  have "0 \<le> (unsigned u :: real)"
    by (metis unsigned_0 word_coorder.extremum word_less_eq_iff_unsigned)
  moreover have "uint u < 4294967296" using uint_lt2p [of u] by simp
  then have "real_of_int (uint u) < real_of_int 4294967296" by (simp only: of_int_less_iff)
  then have "(unsigned u :: real) < 4294967296" by simp
  ultimately show ?thesis by simp
qed

lemma next01_range: "0 \<le> fst (next01 p) \<and> fst (next01 p) < 1"
proof -
  obtain u p' where n: "nextUint32 p = (u, p')" by (cases "nextUint32 p")
  show ?thesis
    using unsigned_real_range [of u] by (simp add: next01_def n)
qed

lemma random_dir_ok: "\<exists>c. asNormalizedCoord \<lparr> dir9 = \<lfloor>fst (next01 p) * 8\<rfloor> \<rparr> = Some c"
proof -
  from next01_range [of p] have "0 \<le> fst (next01 p) * 8" "fst (next01 p) * 8 < 8"
    by simp_all
  then have "0 \<le> \<lfloor>fst (next01 p) * 8\<rfloor>" "\<lfloor>fst (next01 p) * 8\<rfloor> < 8"
    by (simp_all add: floor_less_iff)
  then show ?thesis
    by (intro asNormalizedCoord_valid) simp_all
qed


lemma rot_ok:
  "\<exists>c. asNormalizedCoord (rotate90CW d) = Some c"
  "\<exists>c. asNormalizedCoord (rotate90CCW d) = Some c"
  "\<exists>c. asNormalizedCoord (rotate180 d) = Some c"
  by (simp_all add: rotate90CW_def rotate90CCW_def rotate180_def asNormalizedCoord_rotate)

lemma actionStep_ok:
  assumes "0 \<le> dir9 (lastMoveDir (act_indiv st))" "dir9 (lastMoveDir (act_indiv st)) \<le> 8"
  shows "\<exists>st'. actionStep g prm th a lv st = Inr st' \<and> act_kept st st'"
proof -
  note v = asNormalizedCoord_valid [OF assms]
  note am = add_move_ok [OF _ act_kept_refl]
  have r: "\<exists>st'. add_move \<lparr> dir9 = \<lfloor>fst (next01 (act_rng st)) * 8\<rfloor> \<rparr> 1
              (st\<lparr>act_rng := snd (next01 (act_rng st))\<rparr>) = Inr st' \<and> act_kept st st'"
    by (rule add_move_ok [OF random_dir_ok]) (simp add: act_kept_def)
  have "a = 0 \<or> a = 1 \<or> a = 2 \<or> a = 3 \<or> a = 4 \<or> a = 5 \<or> a = 6 \<or> a = 7
    \<or> a = 8 \<or> a = 9 \<or> a = 10 \<or> a = 11 \<or> a = 12 \<or> a = 13 \<or> a = 14 \<or> a = 15
    \<or> a = 16 \<or> a > 16"
    by arith
  then consider "a = 0" | "a = 1" | "a = 2" | "a = 3" | "a = 4" | "a = 5" | "a = 6" | "a = 7"
    | "a = 8" | "a = 9" | "a = 10" | "a = 11" | "a = 12" | "a = 13" | "a = 14" | "a = 15"
    | "a = 16" | "a > 16"
    by blast
  then show ?thesis
  proof cases
    case 1 then show ?thesis by (simp add: actionStep_def act_kept_def)
  next
    case 2 then show ?thesis by (simp add: actionStep_def act_kept_def)
  next
    case 3 then show ?thesis using am [OF v] by (simp add: actionStep_def Let_def act_kept_refl)
  next
    case 4 then show ?thesis using am [OF rot_ok(1)] am [OF rot_ok(2)]
      by (simp add: actionStep_def Let_def act_kept_refl)
  next
    case 5 then show ?thesis using r
      by (simp add: actionStep_def Let_def act_kept_refl case_prod_beta)
  next
    case 6 then show ?thesis by (simp add: actionStep_def Let_def act_kept_def)
  next
    case 7 then show ?thesis by (simp add: actionStep_def Let_def act_kept_def)
  next
    case 8 then show ?thesis by (simp add: actionStep_def Let_def act_kept_def)
  next
    case 9 then show ?thesis by (simp add: actionStep_def Let_def act_kept_def)
  next
    case 10
    from v obtain c where c: "asNormalizedCoord (lastMoveDir (act_indiv st)) = Some c" by blast
    from 10 show ?thesis
      by (simp add: actionStep_def Let_def c act_kept_def queueDeath_def
          split: option.splits)
  next
    case 11 then show ?thesis by (simp add: actionStep_def Let_def act_kept_def)
  next
    case 12 then show ?thesis by (simp add: actionStep_def Let_def act_kept_def)
  next
    case 13 then show ?thesis by (simp add: actionStep_def Let_def act_kept_def)
  next
    case 14 then show ?thesis by (simp add: actionStep_def Let_def act_kept_def)
  next
    case 15 then show ?thesis using am [OF rot_ok(2)]
      by (simp add: actionStep_def Let_def act_kept_refl)
  next
    case 16 then show ?thesis using am [OF rot_ok(1)]
      by (simp add: actionStep_def Let_def act_kept_refl)
  next
    case 17 then show ?thesis using am [OF rot_ok(3)]
      by (simp add: actionStep_def Let_def act_kept_refl)
  next
    case 18 then show ?thesis by (simp add: actionStep_def Let_def act_kept_def)
  qed
qed

lemma runActions_ok:
  assumes "0 \<le> dir9 (lastMoveDir (act_indiv st))" "dir9 (lastMoveDir (act_indiv st)) \<le> 8"
  shows "\<exists>st'. runActions g prm th lv as st = Inr st' \<and> act_kept st st'"
  using assms
proof (induction as arbitrary: st)
  case Nil
  then show ?case by (simp add: act_kept_refl)
next
  case (Cons a as)
  from actionStep_ok [OF Cons.prems, of g prm th a "lv a"] obtain st1 where
    1: "actionStep g prm th a (lv a) st = Inr st1" "act_kept st st1" by blast
  then have d: "0 \<le> dir9 (lastMoveDir (act_indiv st1))" "dir9 (lastMoveDir (act_indiv st1)) \<le> 8"
    using Cons.prems by (simp_all add: act_kept_def)
  from Cons.IH [OF d] obtain st2 where
    2: "runActions g prm th lv as st1 = Inr st2" "act_kept st1 st2" by blast
  from 1 2 act_kept_trans [OF 1(2) 2(2)] show ?case by simp
qed


lemma coordToCompass_range: "0 \<le> coordToCompass dx dy \<and> coordToCompass dx dy \<le> 8"
  by (simp add: coordToCompass_def Compass_N_def Compass_NE_def Compass_E_def Compass_SE_def
      Compass_S_def Compass_SW_def Compass_W_def Compass_NW_def Compass_CENTER_def)

lemma executeActions_ok:
  assumes "0 \<le> dir9 (lastMoveDir indiv)" "dir9 (lastMoveDir indiv) \<le> 8"
  shows "\<exists>indiv' sg' ps' p'.
           executeActions indiv lv g sg ps prm p = Inr (indiv', sg', ps', p') \<and>
           individuals ps' = individuals ps \<and> loc indiv' = loc indiv \<and>
           alive indiv' = alive indiv \<and>
           0 \<le> dir9 (lastMoveDir indiv') \<and> dir9 (lastMoveDir indiv') \<le> 8 \<and>
           (\<exists>added. moveQueue ps' = moveQueue ps @ added \<and>
              (\<forall>r \<in> set added. isEmptyAt g (newLoc r)))"
proof -
  let ?st = "\<lparr> moveX = 0, moveY = 0, act_indiv = indiv, act_signals = sg,
                  act_peeps = ps, act_rng = p \<rparr>"
  let ?th = "responsivenessCurve (Indiv.responsiveness indiv) (responsivenessCurveKFactor prm)"
  have d: "0 \<le> dir9 (lastMoveDir (act_indiv ?st))" "dir9 (lastMoveDir (act_indiv ?st)) \<le> 8"
    using assms by simp_all
  from runActions_ok [OF d, of g prm ?th lv "[0..<17]"] obtain st' where
    r: "runActions g prm ?th lv [0..<17] ?st = Inr st'" and k: "act_kept ?st st'"
    by blast
  from k have k': "individuals (act_peeps st') = individuals ps" "loc (act_indiv st') = loc indiv"
    "alive (act_indiv st') = alive indiv" "lastMoveDir (act_indiv st') = lastMoveDir indiv"
    "moveQueue (act_peeps st') = moveQueue ps"
    by (simp_all add: act_kept_def)
  show ?thesis
    unfolding executeActions_def Let_def r
    using k' assms coordToCompass_range
    by (simp add: queueMove_def)
qed

lemma places_update_same:
  assumes "i < length inds" "inds ! i = Some a" "alive b = alive a" "loc b = loc a"
  shows "places (inds[i := Some b]) = places inds"
proof -
  have "places (inds[i := Some b]) = (places inds)[i := Some (alive b, loc b)]"
    by (simp add: places_def map_update)
  also have "\<dots> = (places inds)[i := places inds ! i]"
    using assms by (simp add: places_def)
  also have "\<dots> = places inds"
    by (rule list_update_id)
  finally show ?thesis .
qed

lemma on_grid_places:
  assumes "places inds' = places inds"
  shows "on_grid inds' g = on_grid inds g"
proof -
  have l: "length inds' = length inds"
    using arg_cong [OF assms, of length] by (simp add: places_def)
  have e: "map_option (\<lambda>ind. (alive ind, loc ind)) (inds' ! i)
         = map_option (\<lambda>ind. (alive ind, loc ind)) (inds ! i)" if "i < length inds" for i
    using arg_cong [OF assms, of "\<lambda>xs. xs ! i"] that l by (simp add: places_def)
  have "on_grid a g" if "on_grid b g" "length a = length b"
    and "\<And>i. i < length b \<Longrightarrow> map_option (\<lambda>ind. (alive ind, loc ind)) (a ! i)
         = map_option (\<lambda>ind. (alive ind, loc ind)) (b ! i)" for a b
    unfolding on_grid_def
  proof (intro allI impI)
    fix i x assume i: "i < length a" and x: "a ! i = Some x \<and> alive x"
    from i that(2) have ib: "i < length b" by simp
    from that(3) [OF ib] x obtain y where y: "b ! i = Some y" "alive y = alive x" "loc y = loc x"
      by (cases "b ! i") auto
    with that(1,2) i x show "isInBounds g (loc x) \<and> grid_at g (loc x) = Some (word_of_nat i) \<and>
        0 < i \<and> i < 65535"
      by (auto simp: on_grid_def)
  qed
  from this [of inds inds'] this [of inds' inds] l e show ?thesis
    by auto
qed

lemma stepIndiv_ok:
  assumes "dirs_ok (individuals (peeps sim))"
  shows "\<exists>sim'. stepIndiv f i sim = Inr sim' \<and> grid sim' = grid sim \<and>
           places (individuals (peeps sim')) = places (individuals (peeps sim)) \<and>
           dirs_ok (individuals (peeps sim')) \<and>
           (\<exists>added. moveQueue (peeps sim') = moveQueue (peeps sim) @ added \<and>
              (\<forall>r \<in> set added. isEmptyAt (grid sim) (newLoc r)))"
proof (cases "peeps_get (individuals (peeps sim)) i")
  case None
  then show ?thesis using assms by (simp add: stepIndiv_def)
next
  case (Some indiv)
  then have i: "i < length (individuals (peeps sim))" "individuals (peeps sim) ! i = Some indiv"
    by (auto simp: peeps_get_def split: if_splits)
  show ?thesis
  proof (cases "alive indiv")
    case False
    with Some show ?thesis using assms by (simp add: stepIndiv_def)
  next
    case True
    obtain lv net p where b: "f sim indiv = (lv, net, p)" by (cases "f sim indiv")
    let ?ind = "indiv\<lparr>nnet := net\<rparr>"
    from assms i have d: "0 \<le> dir9 (lastMoveDir ?ind)" "dir9 (lastMoveDir ?ind) \<le> 8"
      by (auto simp: dirs_ok_def)
    from executeActions_ok [OF d, of lv "grid sim" "signals sim" "peeps sim" "params sim" p]
    obtain indiv' sg' ps' p' where
      e: "executeActions ?ind lv (grid sim) (signals sim) (peeps sim) (params sim) p
            = Inr (indiv', sg', ps', p')"
      and k: "individuals ps' = individuals (peeps sim)" "loc indiv' = loc indiv"
        "alive indiv' = alive indiv"
        "0 \<le> dir9 (lastMoveDir indiv')" "dir9 (lastMoveDir indiv') \<le> 8"
      and m: "\<exists>added. moveQueue ps' = moveQueue (peeps sim) @ added \<and>
              (\<forall>r \<in> set added. isEmptyAt (grid sim) (newLoc r))"
      by auto
    let ?new = "indiv'\<lparr>age := age indiv' + 1\<rparr>"
    let ?inds = "(individuals ps')[i := Some ?new]"
    let ?sim = "sim\<lparr>peeps := ps'\<lparr>individuals := ?inds\<rparr>, signals := sg', rng := p'\<rparr>"
    have st: "stepIndiv f i sim = Inr ?sim"
      using Some True by (simp add: stepIndiv_def b e)
    have pl: "places ?inds = places (individuals (peeps sim))"
      unfolding k(1) using i k(2,3) by (intro places_update_same) simp_all
    have dk: "dirs_ok ?inds"
      unfolding dirs_ok_def k(1)
    proof (intro allI impI)
      fix j x assume j: "j < length ((individuals (peeps sim))[i := Some ?new])"
        and x: "(individuals (peeps sim))[i := Some ?new] ! j = Some x"
      show "0 \<le> dir9 (lastMoveDir x) \<and> dir9 (lastMoveDir x) \<le> 8"
      proof (cases "j = i")
        case True
        with x i have "x = ?new" by simp
        with k show ?thesis by simp
      next
        case False
        with x j assms show ?thesis by (auto simp: dirs_ok_def)
      qed
    qed
    show ?thesis
      unfolding st using pl dk m by simp
  qed
qed

lemma stepIndividuals_ok:
  assumes "dirs_ok (individuals (peeps sim))"
  shows "\<exists>sim'. stepIndividuals f is sim = Inr sim' \<and> grid sim' = grid sim \<and>
           places (individuals (peeps sim')) = places (individuals (peeps sim)) \<and>
           dirs_ok (individuals (peeps sim')) \<and>
           (\<exists>added. moveQueue (peeps sim') = moveQueue (peeps sim) @ added \<and>
              (\<forall>r \<in> set added. isEmptyAt (grid sim) (newLoc r)))"
  using assms
proof (induction "is" arbitrary: sim)
  case Nil
  then show ?case by simp
next
  case (Cons i "is")
  from stepIndiv_ok [OF Cons.prems, of f i] obtain sim1 where
    1: "stepIndiv f i sim = Inr sim1" "grid sim1 = grid sim"
      "places (individuals (peeps sim1)) = places (individuals (peeps sim))"
      "dirs_ok (individuals (peeps sim1))"
    and m1: "\<exists>added. moveQueue (peeps sim1) = moveQueue (peeps sim) @ added \<and>
              (\<forall>r \<in> set added. isEmptyAt (grid sim) (newLoc r))"
    by blast
  from Cons.IH [OF 1(4)] obtain sim2 where
    2: "stepIndividuals f is sim1 = Inr sim2" "grid sim2 = grid sim1"
      "places (individuals (peeps sim2)) = places (individuals (peeps sim1))"
      "dirs_ok (individuals (peeps sim2))"
    and m2: "\<exists>added. moveQueue (peeps sim2) = moveQueue (peeps sim1) @ added \<and>
              (\<forall>r \<in> set added. isEmptyAt (grid sim1) (newLoc r))"
    by blast
  from m1 obtain a1 where a1: "moveQueue (peeps sim1) = moveQueue (peeps sim) @ a1"
    "\<forall>r \<in> set a1. isEmptyAt (grid sim) (newLoc r)" by blast
  from m2 1(2) obtain a2 where a2: "moveQueue (peeps sim2) = moveQueue (peeps sim1) @ a2"
    "\<forall>r \<in> set a2. isEmptyAt (grid sim) (newLoc r)" by auto
  from a1 a2 have "moveQueue (peeps sim2) = moveQueue (peeps sim) @ (a1 @ a2) \<and>
      (\<forall>r \<in> set (a1 @ a2). isEmptyAt (grid sim) (newLoc r))"
    by auto
  then have "\<exists>added. moveQueue (peeps sim2) = moveQueue (peeps sim) @ added \<and>
      (\<forall>r \<in> set added. isEmptyAt (grid sim) (newLoc r))" ..
  with 1 2 show ?case by simp
qed


text \<open>
  Claim C8, amended. From every state in which the grid and the population are
  consistent (\<open>sim_inv\<close>: the grid has \<^verbatim>\<open>sizeX * sizeY\<close> cells, every living individual
  stands in bounds on the cell that holds its index, its index is between 1 and
  \<^verbatim>\<open>0xFFFE\<close>, so the population is of at most 65534, and every \<^verbatim>\<open>lastMoveDir\<close> is a
  compass value), whatever the brains compute, \<^verbatim>\<open>stepOnce\<close> returns without a
  \<^verbatim>\<open>TypeError\<close>, the state it leaves is consistent again, the grid has as many cells as
  before, and every cell that held \<^verbatim>\<open>0xFFFF\<close> at the start holds \<^verbatim>\<open>0xFFFF\<close> at the end.
  The action execution leaves the grid as it is; the two drains write only to cells of
  living individuals and to empty cells. \<^verbatim>\<open>Peeps.init\<close> and \<^verbatim>\<open>Peeps.initFromGenomes\<close>
  leave a consistent state when the population is of at most 65534.
\<close>

theorem stepOnce_keeps_barriers:
  assumes "sim_inv sim"
  shows "\<exists>sim'. stepOnce f sim = Inr sim' \<and> sim_inv sim' \<and>
           length (data (grid sim')) = length (data (grid sim)) \<and>
           (\<forall>i < length (data (grid sim)).
              data (grid sim) ! i = BARRIER \<longrightarrow> data (grid sim') ! i = BARRIER)"
proof -
  from assms have a: "grid_ok (grid sim)" "on_grid (individuals (peeps sim)) (grid sim)"
    "dirs_ok (individuals (peeps sim))"
    by (simp_all add: sim_inv_def)
  from stepIndividuals_ok [OF a(3), of f "[1..<Suc (getPopulationSize (peeps sim))]"]
  obtain sim1 where
    1: "stepIndividuals f [1..<Suc (getPopulationSize (peeps sim))] sim = Inr sim1"
      "grid sim1 = grid sim"
      "places (individuals (peeps sim1)) = places (individuals (peeps sim))"
      "dirs_ok (individuals (peeps sim1))"
    by blast
  have "sim_inv sim1"
    unfolding sim_inv_def using a 1 on_grid_places [OF 1(3), of "grid sim"] by simp
  from endOfStep_inv [OF this] 1(2)
  have 2: "sim_inv (endOfStep sim1)" "barriers_kept (grid sim) (grid (endOfStep sim1))"
    by simp_all
  have "stepOnce f sim = Inr (endOfStep sim1)"
    unfolding stepOnce_def 1(1) by simp
  with 2 show ?thesis
    by (simp add: barriers_kept_def)
qed

text \<open>The world of three cells is consistent.\<close>

lemma queue_sim_inv: "sim_inv queue_sim"
proof -
  have w: "(word_of_nat (Suc 0) :: 16 word) = 1" "(word_of_nat 2 :: 16 word) = 2"
    by simp_all
  have l: "i = 0 \<or> i = Suc 0 \<or> i = 2" if "i < length (individuals (peeps queue_sim))" for i
    using that by (simp add: queue_sim_def) arith
  have "grid_ok (grid queue_sim)"
    by (simp add: grid_ok_def queue_sim_def)
  moreover have "on_grid (individuals (peeps queue_sim)) (grid queue_sim)"
    unfolding on_grid_def
  proof (intro allI impI)
    fix i ind
    assume i: "i < length (individuals (peeps queue_sim))"
      and x: "individuals (peeps queue_sim) ! i = Some ind \<and> alive ind"
    from l [OF i] x
    show "isInBounds (grid queue_sim) (loc ind) \<and>
       grid_at (grid queue_sim) (loc ind) = Some (word_of_nat i) \<and> 0 < i \<and> i < 65535"
      by (elim disjE)
        (auto simp: queue_sim_def queue_agent_def isInBounds_def grid_at_def grid_idx_def
          Let_def w simp del: of_nat_Suc)
  qed
  moreover have "dirs_ok (individuals (peeps queue_sim))"
    unfolding dirs_ok_def
  proof (intro allI impI)
    fix i ind
    assume i: "i < length (individuals (peeps queue_sim))"
      and x: "individuals (peeps queue_sim) ! i = Some ind"
    from l [OF i] x
    show "0 \<le> dir9 (lastMoveDir ind) \<and> dir9 (lastMoveDir ind) \<le> 8"
      by (elim disjE) (auto simp: queue_sim_def queue_agent_def Compass_CENTER_def)
  qed
  ultimately show ?thesis
    by (simp add: sim_inv_def)
qed

theorem stepOnce_keeps_barriers_witness:
  "sim_inv queue_sim \<and> data (grid queue_sim) ! 2 = BARRIER \<and>
   (\<exists>sim'. stepOnce east_brain queue_sim = Inr sim' \<and> sim_inv sim' \<and>
      data (grid sim') ! 2 = BARRIER)"
proof -
  have b: "data (grid queue_sim) ! 2 = BARRIER" "2 < length (data (grid queue_sim))"
    by (simp_all add: queue_sim_def)
  from stepOnce_keeps_barriers [OF queue_sim_inv, of east_brain]
  obtain sim' where s: "stepOnce east_brain queue_sim = Inr sim'" "sim_inv sim'"
    "\<forall>i < length (data (grid queue_sim)).
       data (grid queue_sim) ! i = BARRIER \<longrightarrow> data (grid sim') ! i = BARRIER"
    by blast
  from s(3) b have "data (grid sim') ! 2 = BARRIER" by blast
  with s(1,2) b(1) queue_sim_inv show ?thesis by blast
qed

section \<open>Indices that do not fit a cell\<close>

lemma length_dead_slots [simp]: "length (dead_slots a b) = b - a"
  by (simp add: dead_slots_def)

lemma nth_dead_slots:
  "i < b - a \<Longrightarrow> dead_slots a b ! i = Some ((queue_agent (a + i) \<lparr> cx = 0, cy = 0 \<rparr>)\<lparr>alive := False\<rparr>)"
  by (simp add: dead_slots_def)

lemma upt_17: "[0..<17] = [0, 1, 2, 3, 4, 5, 6, 7, 8, 9, 10, 11, 12, 13, 14, 15, 16]"
  by (simp add: upt_rec)

lemma stepIndividuals_append:
  "stepIndividuals f (xs @ ys) sim =
     (case stepIndividuals f xs sim of Inl e \<Rightarrow> Inl e | Inr sim' \<Rightarrow> stepIndividuals f ys sim')"
  by (induction xs arbitrary: sim) (simp_all split: sum.splits)

lemma stepIndividuals_skip:
  assumes "\<forall>i \<in> set is. \<forall>v. peeps_get (individuals (peeps sim)) i = Some v \<longrightarrow> \<not> alive v"
  shows "stepIndividuals f is sim = Inr sim"
  using assms
proof (induction "is")
  case Nil
  then show ?case by simp
next
  case (Cons i "is")
  then have "stepIndiv f i sim = Inr sim"
    by (cases "peeps_get (individuals (peeps sim)) i") (auto simp: stepIndiv_def)
  with Cons show ?case by simp
qed

lemma executeActions_east:
  assumes "Indiv.responsiveness indiv = 1 / 2"
    and "isInBounds g \<lparr> cx = cx (loc indiv) + 1, cy = cy (loc indiv) \<rparr>"
    and "isEmptyAt g \<lparr> cx = cx (loc indiv) + 1, cy = cy (loc indiv) \<rparr>"
  shows "executeActions indiv (\<lambda>a. if a = 10 then 1 else 0) g sg ps prm p =
     Inr (indiv\<lparr>oscPeriod := 2, longProbeDist := 1, lastMoveDir := \<lparr> dir9 = Compass_E \<rparr>\<rparr>,
          sg, queueMove ps (index indiv) \<lparr> cx = cx (loc indiv) + 1, cy = cy (loc indiv) \<rparr>, p)"
proof -
  have th: "responsivenessCurve (Indiv.responsiveness indiv) (responsivenessCurveKFactor prm) = 1 / 2"
    by (simp add: responsivenessCurve_def assms(1))
  have r: "runActions g prm (1 / 2) (\<lambda>a. if a = 10 then 1 else 0) [0..<17]
       \<lparr> moveX = 0, moveY = 0, act_indiv = indiv, act_signals = sg, act_peeps = ps, act_rng = p \<rparr>
     = Inr \<lparr> moveX = 1, moveY = 0,
             act_indiv = indiv\<lparr>oscPeriod := 2, longProbeDist := 1\<rparr>,
             act_signals = sg, act_peeps = ps, act_rng = p \<rparr>"
    by (simp add: upt_17 actionStep_def fires_def Let_def assms(1))
  show ?thesis
    unfolding executeActions_def Let_def th r
    using assms(2,3) by (simp add: coordToCompass_def)
qed

text \<open>
  Claim C8 fails as stated, of every reachable state: \<^verbatim>\<open>Peeps.init\<close> numbers the
  individuals from 1 to \<^verbatim>\<open>population\<close> with no bound, and the cell of the individual
  65535 holds \<^verbatim>\<open>0xFFFF\<close>. Driven east by its brain, it queues a move to the empty cell
  beside it, and \<^verbatim>\<open>drainMoveQueue\<close> clears the cell it leaves: the cell that held
  \<^verbatim>\<open>0xFFFF\<close> at the start of the step holds 0 at the end.
\<close>

theorem stepOnce_clears_barrier_value:
  "getPopulationSize (peeps barrier_index_sim) = 65535 \<and>
   grid_at (grid barrier_index_sim) \<lparr> cx = 0, cy = 0 \<rparr> = Some (word_of_nat 65535) \<and>
   data (grid barrier_index_sim) = [BARRIER, 0] \<and>
   (\<exists>sim'. stepOnce east_brain barrier_index_sim = Inr sim' \<and> data (grid sim') = [0, BARRIER])"
proof -
  define bs where "bs = None # dead_slots 1 65535"
  define a where "a = queue_agent 65535 \<lparr> cx = 0, cy = 0 \<rparr>"
  define g where "g = \<lparr> Grid.sizeX = 2, sizeY = 1, data = [BARRIER, 0] \<rparr>"
  let ?sim = barrier_index_sim
  let ?c = "\<lparr> cx = 1, cy = 0 \<rparr>"
  have lb: "length bs = 65535" by (simp add: bs_def)
  have dead: "\<not> alive v" if "i < 65535" "bs ! i = Some v" for i v
  proof (cases i)
    case 0
    with that show ?thesis by (simp add: bs_def)
  next
    case (Suc j)
    with that(1) have "j < 65535 - 1" by simp
    from nth_dead_slots [OF this] that(2) Suc show ?thesis
      by (auto simp: bs_def)
  qed
  have inds: "individuals (peeps ?sim) = bs @ [Some a]"
    by (simp add: barrier_index_sim_def bs_def a_def)
  have gr: "grid ?sim = g"
    by (simp add: barrier_index_sim_def g_def BARRIER_def)
  have pop: "getPopulationSize (peeps ?sim) = 65535"
    by (simp add: getPopulationSize_def inds lb)
  have af: "alive a" "loc a = \<lparr> cx = 0, cy = 0 \<rparr>" "index a = 65535"
    "Indiv.responsiveness a = 1 / 2" "a\<lparr>nnet := nnet a\<rparr> = a"
    by (simp_all add: a_def queue_agent_def)
  have ga: "peeps_get (bs @ [Some a]) 65535 = Some a"
    by (simp add: peeps_get_def nth_append lb)
  have skip: "stepIndividuals east_brain [1..<65535] ?sim = Inr ?sim"
  proof (rule stepIndividuals_skip, intro ballI allI impI)
    fix i v assume i: "i \<in> set [1..<65535]"
      and v: "peeps_get (individuals (peeps ?sim)) i = Some v"
    from i have "i < 65535" by simp
    with v lb have "bs ! i = Some v"
      by (simp add: inds peeps_get_def nth_append split: if_splits)
    with \<open>i < 65535\<close> show "\<not> alive v" by (rule dead)
  qed
  have u: "[1..<Suc 65535] = [1..<65535] @ [65535]"
    by (rule upt_Suc_append) simp
  let ?a' = "a\<lparr>oscPeriod := 2, longProbeDist := 1, lastMoveDir := \<lparr> dir9 = Compass_E \<rparr>\<rparr>"
  let ?ps1 = "queueMove (peeps ?sim) 65535 ?c"
  let ?sim1 = "?sim\<lparr>peeps := ?ps1\<lparr>individuals :=
                 (individuals ?ps1)[65535 := Some (?a'\<lparr>age := age ?a' + 1\<rparr>)]\<rparr>,
               signals := signals ?sim, rng := rng ?sim\<rparr>"
  have ib: "isInBounds g \<lparr> cx = cx (loc a) + 1, cy = cy (loc a) \<rparr>"
    "isEmptyAt g \<lparr> cx = cx (loc a) + 1, cy = cy (loc a) \<rparr>"
    by (simp_all add: af g_def isInBounds_def isEmptyAt_def grid_at_def grid_idx_def Let_def
        EMPTY_def)
  have ea: "executeActions a (\<lambda>a. if a = 10 then 1 else 0) g (signals ?sim) (peeps ?sim)
       (params ?sim) (rng ?sim) = Inr (?a', signals ?sim, ?ps1, rng ?sim)"
    using executeActions_east [OF af(4) ib] by (simp add: af)
  have si: "stepIndiv east_brain 65535 ?sim = Inr ?sim1"
    unfolding stepIndiv_def inds ga
    by (simp add: af east_brain_def gr ea inds)
  have so: "stepOnce east_brain ?sim = Inr (endOfStep ?sim1)"
    unfolding stepOnce_def pop u stepIndividuals_append skip
    by (simp add: si)
  have i1: "individuals (peeps ?sim1) = bs @ [Some (?a'\<lparr>age := age ?a' + 1\<rparr>)]"
    by (simp add: queueMove_def inds list_update_append lb)
  have q1: "moveQueue (peeps ?sim1) = [\<lparr> MoveRecord.indivIndex = 65535, newLoc = ?c \<rparr>]"
    "deathQueue (peeps ?sim1) = []" "grid ?sim1 = g"
    by (simp_all add: queueMove_def gr) (simp_all add: barrier_index_sim_def)
  have m0: "moveQueue (peeps ?sim) = []" "deathQueue (peeps ?sim) = []"
    by (simp_all add: barrier_index_sim_def)
  have "data (grid (endOfStep ?sim1)) = [0, BARRIER]"
    unfolding endOfStep_def drainDeathQueue_def drainMoveQueue_def q1 i1
    by (simp add: queueMove_def m0 move_step_def peeps_get_def nth_append lb af g_def isInBounds_def
        isEmptyAt_def grid_at_def grid_idx_def grid_set_def Let_def EMPTY_def BARRIER_def
        list_update_append)
  moreover have "grid_at g \<lparr> cx = 0, cy = 0 \<rparr> = Some (word_of_nat 65535)" "data g = [BARRIER, 0]"
    by (simp_all add: g_def grid_at_def grid_idx_def Let_def BARRIER_def)
  ultimately show ?thesis
    using so pop gr by simp
qed

section \<open>The initial population is consistent\<close>

lemma nextInt_range:
  assumes "0 < m"
  shows "0 \<le> fst (nextInt p m) \<and> fst (nextInt p m) < m"
proof -
  let ?r = "fst (next01 p)"
  from next01_range [of p] have r: "0 \<le> ?r" "?r < 1" by simp_all
  have f: "fst (nextInt p m) = \<lfloor>?r * real_of_int m\<rfloor>"
    by (simp add: nextInt_def case_prod_beta)
  from r assms have "0 \<le> ?r * real_of_int m" "?r * real_of_int m < real_of_int m"
    by simp_all
  then show ?thesis
    unfolding f by (simp add: floor_less_iff)
qed

lemma findPlace_ok:
  assumes "0 < Grid.sizeX g" "0 < Grid.sizeY g"
  shows "case findPlace g p a of (l, a', p') \<Rightarrow>
           isInBounds g l \<and> (a' < 10000 \<longrightarrow> isEmptyAt g l)"
  using assms
proof (induction g p a rule: findPlace.induct)
  case (1 g p attempts)
  obtain x p1 where x: "nextInt p (Grid.sizeX g) = (x, p1)" by (cases "nextInt p (Grid.sizeX g)")
  obtain y p2 where y: "nextInt p1 (Grid.sizeY g) = (y, p2)" by (cases "nextInt p1 (Grid.sizeY g)")
  let ?l = "\<lparr> cx = x, cy = y \<rparr>"
  from nextInt_range [OF "1.prems"(1), of p] nextInt_range [OF "1.prems"(2), of p1] x y
  have b: "isInBounds g ?l" by (simp add: isInBounds_def)
  show ?case
  proof (cases "\<not> isEmptyAt g ?l \<and> attempts + 1 < 10000")
    case True
    then have "findPlace g p attempts = findPlace g p2 (attempts + 1)"
      by (subst findPlace.simps) (simp add: x y Let_def)
    moreover from "1.IH" [OF x [symmetric] refl y [symmetric] refl refl refl True "1.prems"]
    have "case findPlace g p2 (attempts + 1) of (l, a', p') \<Rightarrow>
           isInBounds g l \<and> (a' < 10000 \<longrightarrow> isEmptyAt g l)" .
    ultimately show ?thesis by simp
  next
    case False
    then have "findPlace g p attempts = (?l, attempts + 1, p2)"
      by (subst findPlace.simps) (auto simp: x y Let_def)
    with b False show ?thesis by auto
  qed
qed

text \<open>Placing one more individual on an empty cell.\<close>

lemma createIndiv_fields:
  assumes "createIndiv i gn l prm = Inr indiv"
  shows "loc indiv = l" "alive indiv" "lastMoveDir indiv = \<lparr> dir9 = Compass_CENTER \<rparr>"
  using assms by (auto simp: createIndiv_def split: sum.splits)

lemma place_inv:
  assumes "grid_ok g" "on_grid inds g" "dirs_ok inds" "length inds = i" "0 < i" "i < 65535"
    and "isInBounds g l" "isEmptyAt g l" "createIndiv i gn l prm = Inr indiv"
  shows "grid_ok (grid_set g l (int i)) \<and> on_grid (inds @ [Some indiv]) (grid_set g l (int i)) \<and>
         dirs_ok (inds @ [Some indiv]) \<and> barriers_kept g (grid_set g l (int i))"
proof -
  let ?g = "grid_set g l (int i)"
  note f = createIndiv_fields [OF assms(9)]
  from assms(8) have e: "grid_at g l = Some EMPTY" by (simp add: isEmptyAt_def)
  have og: "on_grid (inds @ [Some indiv]) ?g"
    unfolding on_grid_def
  proof (intro allI impI)
    fix j x assume j: "j < length (inds @ [Some indiv])"
      and x: "(inds @ [Some indiv]) ! j = Some x \<and> alive x"
    show "isInBounds ?g (loc x) \<and> grid_at ?g (loc x) = Some (word_of_nat j) \<and> 0 < j \<and> j < 65535"
    proof (cases "j < length inds")
      case True
      with x have xi: "inds ! j = Some x" "alive x" by (simp_all add: nth_append)
      from assms(2) True xi have o: "isInBounds g (loc x)"
        "grid_at g (loc x) = Some (word_of_nat j)" "0 < j" "j < 65535"
        by (auto simp: on_grid_def)
      have "loc x \<noteq> l"
        using o(2) e word16_of_nat_not_empty [OF o(3,4)] by auto
      then have "grid_at ?g (loc x) = grid_at g (loc x)"
        using grid_at_set [OF assms(1,7) o(1)] by simp
      with o show ?thesis by simp
    next
      case False
      with j have ji: "j = i" using assms(4) by simp
      with x assms(4) have "x = indiv" by (simp add: nth_append)
      with f have "loc x = l" by simp
      moreover have "grid_at ?g l = Some (word_of_nat i)"
        using grid_at_set [OF assms(1,7,7)] by simp
      ultimately show ?thesis using ji assms(5,6,7) by simp
    qed
  qed
  have dk: "dirs_ok (inds @ [Some indiv])"
    unfolding dirs_ok_def
  proof (intro allI impI)
    fix j x assume j: "j < length (inds @ [Some indiv])"
      and x: "(inds @ [Some indiv]) ! j = Some x"
    show "0 \<le> dir9 (lastMoveDir x) \<and> dir9 (lastMoveDir x) \<le> 8"
    proof (cases "j < length inds")
      case True
      with x assms(3) show ?thesis by (auto simp: dirs_ok_def nth_append)
    next
      case False
      with j x have "x = indiv" by (simp add: nth_append)
      with f show ?thesis by (simp add: Compass_CENTER_def)
    qed
  qed
  have bk: "barriers_kept g ?g"
    using e by (intro barriers_kept_set) (simp add: EMPTY_def BARRIER_def)
  from assms(1) og dk bk show ?thesis by simp
qed

lemma placeGenomes_inv:
  assumes "grid_ok g" "on_grid inds g" "dirs_ok inds" "length inds = i + 1"
    and "0 < Grid.sizeX g" "0 < Grid.sizeY g" "population prm \<le> 65534"
    and "placeGenomes prm i gns inds g p = Inr (inds', g', p')"
  shows "grid_ok g' \<and> on_grid inds' g' \<and> dirs_ok inds' \<and> barriers_kept g g'"
  using assms
proof (induction gns arbitrary: i inds g p)
  case Nil
  then show ?case by (simp add: barriers_kept_refl)
next
  case (Cons gn gns)
  show ?case
  proof (cases "i < population prm")
    case False
    with Cons.prems show ?thesis by (simp add: barriers_kept_refl)
  next
    case True
    obtain l a p1 where fp: "findPlace g p 0 = (l, a, p1)" by (cases "findPlace g p 0")
    from findPlace_ok [OF Cons.prems(5,6), of p 0] fp
    have lb: "isInBounds g l" "a < 10000 \<longrightarrow> isEmptyAt g l" by simp_all
    show ?thesis
    proof (cases "a \<ge> 10000")
      case True
      with \<open>i < population prm\<close> Cons.prems fp show ?thesis by (simp add: barriers_kept_refl)
    next
      case False
      with lb have le: "isEmptyAt g l" by simp
      from False True Cons.prems(8) fp obtain indiv where
        ci: "createIndiv (i + 1) gn l prm = Inr indiv" and
        rest: "placeGenomes prm (i + 1) gns (inds @ [Some indiv]) (grid_set g l (int (i + 1))) p1
                 = Inr (inds', g', p')"
        by (cases "createIndiv (i + 1) gn l prm") simp_all
      from True Cons.prems(7) have ib: "0 < i + 1" "i + 1 < 65535" by simp_all
      from place_inv [OF Cons.prems(1,2,3,4) ib lb(1) le ci]
      have 1: "grid_ok (grid_set g l (int (i + 1)))"
        "on_grid (inds @ [Some indiv]) (grid_set g l (int (i + 1)))"
        "dirs_ok (inds @ [Some indiv])" "barriers_kept g (grid_set g l (int (i + 1)))"
        by simp_all
      have l1: "length (inds @ [Some indiv]) = i + 1 + 1" using Cons.prems(4) by simp
      have s1: "0 < Grid.sizeX (grid_set g l (int (i + 1)))" "0 < Grid.sizeY (grid_set g l (int (i + 1)))"
        using Cons.prems(5,6) by simp_all
      from Cons.IH [OF 1(1,2,3) l1 s1 Cons.prems(7) rest] barriers_kept_trans [OF 1(4)]
      show ?thesis by blast
    qed
  qed
qed

lemma initLoop_inv:
  assumes "grid_ok g" "on_grid inds g" "dirs_ok inds" "length inds = i" "0 < i"
    and "0 < Grid.sizeX g" "0 < Grid.sizeY g" "i + n \<le> 65535"
    and "initLoop prm i n inds g p = Inr (inds', g', p')"
  shows "grid_ok g' \<and> on_grid inds' g' \<and> dirs_ok inds' \<and> barriers_kept g g'"
  using assms
proof (induction n arbitrary: i inds g p)
  case 0
  then show ?case by (simp add: barriers_kept_refl)
next
  case (Suc n)
  obtain len p1 where nr: "nextRange p (genomeInitialLengthMin prm) (genomeInitialLengthMax prm) = (len, p1)"
    by (cases "nextRange p (genomeInitialLengthMin prm) (genomeInitialLengthMax prm)")
  obtain gn p2 where mg: "makeRandomGenome p1 (nat len) = (gn, p2)"
    by (cases "makeRandomGenome p1 (nat len)")
  obtain l a p3 where fp: "findPlace g p2 0 = (l, a, p3)" by (cases "findPlace g p2 0")
  from findPlace_ok [OF Suc.prems(6,7), of p2 0] fp
  have lb: "isInBounds g l" "a < 10000 \<longrightarrow> isEmptyAt g l" by simp_all
  show ?case
  proof (cases "a \<ge> 10000")
    case True
    with Suc.prems nr mg fp show ?thesis by (simp add: barriers_kept_refl)
  next
    case False
    with lb have le: "isEmptyAt g l" by simp
    from False Suc.prems(9) nr mg fp obtain indiv where
      ci: "createIndiv i gn l prm = Inr indiv" and
      rest: "initLoop prm (i + 1) n (inds @ [Some indiv]) (grid_set g l (int i)) p3
               = Inr (inds', g', p')"
      by (cases "createIndiv i gn l prm") simp_all
    from Suc.prems(8) have ib: "i < 65535" by simp
    from place_inv [OF Suc.prems(1,2,3,4,5) ib lb(1) le ci]
    have 1: "grid_ok (grid_set g l (int i))"
      "on_grid (inds @ [Some indiv]) (grid_set g l (int i))"
      "dirs_ok (inds @ [Some indiv])" "barriers_kept g (grid_set g l (int i))"
      by simp_all
    have l1: "length (inds @ [Some indiv]) = i + 1" using Suc.prems(4) by simp
    have s1: "0 < Grid.sizeX (grid_set g l (int i))" "0 < Grid.sizeY (grid_set g l (int i))"
      using Suc.prems(6,7) by simp_all
    have n1: "i + 1 + n \<le> 65535" using Suc.prems(8) by simp
    from Suc.IH [OF 1(1,2,3) l1 _ s1 n1 rest] barriers_kept_trans [OF 1(4)]
    show ?thesis by auto
  qed
qed

lemma start_inv: "on_grid [None] g" "dirs_ok [None]"
  by (simp_all add: on_grid_def dirs_ok_def)

text \<open>
  Both initialisations of the population, on a grid of \<^verbatim>\<open>sizeX * sizeY\<close> cells and for
  a population of at most 65534, leave the grid and the population consistent, and
  keep the barriers that \<^verbatim>\<open>createBarrier\<close> has placed.
\<close>

lemma Peeps_init_inv:
  assumes "grid_ok g" "0 < Grid.sizeX g" "0 < Grid.sizeY g" "population prm \<le> 65534"
    and "Peeps_init prm g p = Inr (ps, g', p')"
  shows "sim_inv (sim\<lparr>grid := g', peeps := ps\<rparr>) \<and> barriers_kept g g' \<and>
         deathQueue ps = [] \<and> moveQueue ps = []"
proof -
  from assms(5) obtain inds where
    l: "initLoop prm 1 (population prm) [None] g p = Inr (inds, g', p')" and
    ps: "ps = \<lparr> individuals = inds, deathQueue = [], moveQueue = [] \<rparr>"
    by (auto simp: Peeps_init_def split: sum.splits)
  from assms(4) have n: "1 + population prm \<le> 65535" by simp
  from initLoop_inv [OF assms(1) start_inv _ _ assms(2,3) n l]
  show ?thesis by (simp add: sim_inv_def ps)
qed

lemma initFromGenomes_inv:
  assumes "grid_ok g" "0 < Grid.sizeX g" "0 < Grid.sizeY g" "population prm \<le> 65534"
    and "initFromGenomes genomes prm g p = Inr (ps, g', p')"
  shows "sim_inv (sim\<lparr>grid := g', peeps := ps\<rparr>) \<and> barriers_kept g g' \<and>
         deathQueue ps = [] \<and> moveQueue ps = []"
proof -
  from assms(5) obtain inds where
    l: "placeGenomes prm 0 genomes [None] g p = Inr (inds, g', p')" and
    ps: "ps = \<lparr> individuals = inds, deathQueue = [], moveQueue = [] \<rparr>"
    by (auto simp: initFromGenomes_def split: sum.splits)
  from placeGenomes_inv [OF assms(1) start_inv _ assms(2,3,4) l]
  show ?thesis by (simp add: sim_inv_def ps)
qed

section \<open>The queues at the end of a step\<close>

lemma peeps_get_Some: "peeps_get inds i = Some v \<longleftrightarrow> i < length inds \<and> inds ! i = Some v"
  by (simp add: peeps_get_def)

text \<open>What one record of the death queue does to a slot.\<close>

lemma death_step_slot:
  assumes "k < length inds" "inds ! k = Some v"
  shows "case death_step r (d, inds, g) of (d', inds', g') \<Rightarrow>
           length inds' = length inds \<and>
           (\<exists>v'. inds' ! k = Some v' \<and> loc v' = loc v \<and> (alive v' \<longrightarrow> alive v) \<and>
              (DeathRecord.indivIndex r \<noteq> k \<longrightarrow> v' = v) \<and>
              (DeathRecord.indivIndex r = k \<longrightarrow> \<not> alive v'))"
proof (cases "peeps_get inds (DeathRecord.indivIndex r)")
  case None
  with assms show ?thesis by (auto simp: death_step_def peeps_get_def)
next
  case (Some ind)
  then have j: "DeathRecord.indivIndex r < length inds"
    "inds ! DeathRecord.indivIndex r = Some ind"
    by (simp_all add: peeps_get_Some)
  show ?thesis
  proof (cases "alive ind")
    case False
    with Some j assms show ?thesis by (auto simp: death_step_def)
  next
    case True
    with Some j assms show ?thesis
      by (cases "DeathRecord.indivIndex r = k") (auto simp: death_step_def)
  qed
qed

lemma fold_death_slot:
  assumes "k < length inds" "inds ! k = Some v"
  shows "case fold death_step q (d, inds, g) of (d', inds', g') \<Rightarrow>
           length inds' = length inds \<and>
           (\<exists>v'. inds' ! k = Some v' \<and> loc v' = loc v \<and> (alive v' \<longrightarrow> alive v) \<and>
              (k \<notin> DeathRecord.indivIndex ` set q \<longrightarrow> v' = v) \<and>
              (k \<in> DeathRecord.indivIndex ` set q \<longrightarrow> \<not> alive v'))"
  using assms
proof (induction q arbitrary: d inds g v)
  case Nil
  then show ?case by simp
next
  case (Cons r q)
  obtain d1 inds1 g1 where s1: "death_step r (d, inds, g) = (d1, inds1, g1)"
    by (cases "death_step r (d, inds, g)")
  from death_step_slot [OF Cons.prems, of r d g] s1
  obtain v1 where 1: "length inds1 = length inds" "inds1 ! k = Some v1" "loc v1 = loc v"
    "alive v1 \<longrightarrow> alive v" "DeathRecord.indivIndex r \<noteq> k \<longrightarrow> v1 = v"
    "DeathRecord.indivIndex r = k \<longrightarrow> \<not> alive v1"
    by auto
  from Cons.prems(1) 1(1) have k1: "k < length inds1" by simp
  obtain d2 inds2 g2 where s2: "fold death_step q (d1, inds1, g1) = (d2, inds2, g2)"
    by (cases "fold death_step q (d1, inds1, g1)")
  from Cons.IH [OF k1 1(2), of d1 g1] s2
  obtain v2 where 2: "length inds2 = length inds1" "inds2 ! k = Some v2" "loc v2 = loc v1"
    "alive v2 \<longrightarrow> alive v1" "k \<notin> DeathRecord.indivIndex ` set q \<longrightarrow> v2 = v1"
    "k \<in> DeathRecord.indivIndex ` set q \<longrightarrow> \<not> alive v2"
    by auto
  from 1 2 show ?case
    by (auto simp: s1 s2)
qed

text \<open>A cell that is empty stays empty while the deaths are drained.\<close>

lemma death_step_empty:
  assumes "grid_ok g" "on_grid inds g" "isInBounds g c" "grid_at g c = Some 0"
  shows "case death_step r (d, inds, g) of (d', inds', g') \<Rightarrow> grid_at g' c = Some 0"
proof (cases "peeps_get inds (DeathRecord.indivIndex r)")
  case None
  with assms show ?thesis by (simp add: death_step_def)
next
  case (Some ind)
  then have j: "DeathRecord.indivIndex r < length inds"
    "inds ! DeathRecord.indivIndex r = Some ind"
    by (simp_all add: peeps_get_Some)
  show ?thesis
  proof (cases "alive ind")
    case False
    with Some assms show ?thesis by (simp add: death_step_def)
  next
    case True
    with assms(2) j have b: "isInBounds g (loc ind)" by (auto simp: on_grid_def)
    from grid_at_set [OF assms(1) b assms(3), of 0] assms(4)
    have "grid_at (grid_set g (loc ind) 0) c = Some 0" by simp
    with Some True show ?thesis by (simp add: death_step_def)
  qed
qed

lemma fold_death_empty:
  assumes "grid_ok g" "on_grid inds g" "isInBounds g c" "grid_at g c = Some 0"
  shows "case fold death_step q (d, inds, g) of (d', inds', g') \<Rightarrow> grid_at g' c = Some 0"
  using assms
proof (induction q arbitrary: d inds g)
  case Nil
  then show ?case by simp
next
  case (Cons r q)
  obtain d1 inds1 g1 where s1: "death_step r (d, inds, g) = (d1, inds1, g1)"
    by (cases "death_step r (d, inds, g)")
  from death_step_inv [OF Cons.prems(1,2), of r d] s1
  have 1: "grid_ok g1" "on_grid inds1 g1" "Grid.sizeX g1 = Grid.sizeX g"
    "Grid.sizeY g1 = Grid.sizeY g"
    by simp_all
  from Cons.prems(3) 1(3,4) have b1: "isInBounds g1 c" by (simp add: isInBounds_def)
  from death_step_empty [OF Cons.prems, of r d] s1 have e1: "grid_at g1 c = Some 0" by simp
  from Cons.IH [OF 1(1,2) b1 e1, of d1] show ?case
    by (simp add: s1)
qed

text \<open>The cell of a living individual that the death queue names is empty afterwards.\<close>

lemma fold_death_vacates:
  assumes "grid_ok g" "on_grid inds g" "k < length inds" "inds ! k = Some v" "alive v"
    and "k \<in> DeathRecord.indivIndex ` set q"
  shows "case fold death_step q (d, inds, g) of (d', inds', g') \<Rightarrow> grid_at g' (loc v) = Some 0"
  using assms
proof (induction q arbitrary: d inds g)
  case Nil
  then show ?case by simp
next
  case (Cons r q)
  from Cons.prems(2,3,4,5) have b: "isInBounds g (loc v)" by (auto simp: on_grid_def)
  obtain d1 inds1 g1 where s1: "death_step r (d, inds, g) = (d1, inds1, g1)"
    by (cases "death_step r (d, inds, g)")
  from death_step_inv [OF Cons.prems(1,2), of r d] s1
  have 1: "grid_ok g1" "on_grid inds1 g1" "Grid.sizeX g1 = Grid.sizeX g"
    "Grid.sizeY g1 = Grid.sizeY g" "length inds1 = length inds"
    by simp_all
  from b 1(3,4) have b1: "isInBounds g1 (loc v)" by (simp add: isInBounds_def)
  show ?case
  proof (cases "DeathRecord.indivIndex r = k")
    case True
    with Cons.prems(3,4,5) have "death_step r (d, inds, g) =
        (d + 1, inds[k := Some (v\<lparr>alive := False\<rparr>)], grid_set g (loc v) 0)"
      by (simp add: death_step_def peeps_get_def)
    with s1 have "g1 = grid_set g (loc v) 0" by simp
    with grid_at_set [OF Cons.prems(1) b b, of 0] have e1: "grid_at g1 (loc v) = Some 0"
      by simp
    from fold_death_empty [OF 1(1,2) b1 e1, of q d1] show ?thesis
      by (simp add: s1)
  next
    case False
    with Cons.prems(6) have kq: "k \<in> DeathRecord.indivIndex ` set q" by auto
    from death_step_slot [OF Cons.prems(3,4), of r d g] s1 False
    have k1: "inds1 ! k = Some v" by auto
    from Cons.prems(3) 1(5) have kl: "k < length inds1" by simp
    from Cons.IH [OF 1(1,2) kl k1 Cons.prems(5) kq, of d1] show ?thesis
      by (simp add: s1)
  qed
qed

text \<open>What one record of the move queue does to a slot.\<close>

lemma move_step_slot:
  assumes "k < length inds" "inds ! k = Some v"
  shows "case move_step r (inds, g) of (inds', g') \<Rightarrow>
           length inds' = length inds \<and>
           (\<exists>v'. inds' ! k = Some v' \<and> alive v' = alive v \<and>
              (MoveRecord.indivIndex r \<noteq> k \<longrightarrow> v' = v))"
proof (cases "peeps_get inds (MoveRecord.indivIndex r)")
  case None
  with assms show ?thesis by (simp add: move_step_def)
next
  case (Some ind)
  then have j: "MoveRecord.indivIndex r < length inds"
    "inds ! MoveRecord.indivIndex r = Some ind"
    by (simp_all add: peeps_get_Some)
  with Some assms show ?thesis
    by (cases "MoveRecord.indivIndex r = k") (auto simp: move_step_def)
qed

lemma fold_move_slot:
  assumes "k < length inds" "inds ! k = Some v"
  shows "case fold move_step q (inds, g) of (inds', g') \<Rightarrow>
           length inds' = length inds \<and>
           (\<exists>v'. inds' ! k = Some v' \<and> alive v' = alive v \<and>
              (k \<notin> MoveRecord.indivIndex ` set q \<longrightarrow> v' = v))"
  using assms
proof (induction q arbitrary: inds g v)
  case Nil
  then show ?case by simp
next
  case (Cons r q)
  obtain inds1 g1 where s1: "move_step r (inds, g) = (inds1, g1)"
    by (cases "move_step r (inds, g)")
  from move_step_slot [OF Cons.prems, of r g] s1
  obtain v1 where 1: "length inds1 = length inds" "inds1 ! k = Some v1" "alive v1 = alive v"
    "MoveRecord.indivIndex r \<noteq> k \<longrightarrow> v1 = v"
    by auto
  from Cons.prems(1) 1(1) have k1: "k < length inds1" by simp
  obtain inds2 g2 where s2: "fold move_step q (inds1, g1) = (inds2, g2)"
    by (cases "fold move_step q (inds1, g1)")
  from Cons.IH [OF k1 1(2), of g1] s2
  obtain v2 where 2: "length inds2 = length inds1" "inds2 ! k = Some v2" "alive v2 = alive v1"
    "k \<notin> MoveRecord.indivIndex ` set q \<longrightarrow> v2 = v1"
    by auto
  from 1 2 show ?case
    by (auto simp: s1 s2)
qed

text \<open>An empty cell stays empty while no record of the move queue names it.\<close>

lemma move_step_empty:
  assumes "grid_ok g" "on_grid inds g" "isInBounds g c" "grid_at g c = Some 0"
    and "newLoc r \<noteq> c"
  shows "case move_step r (inds, g) of (inds', g') \<Rightarrow> grid_at g' c = Some 0"
proof (cases "peeps_get inds (MoveRecord.indivIndex r)")
  case None
  with assms show ?thesis by (simp add: move_step_def)
next
  case (Some ind)
  then have j: "MoveRecord.indivIndex r < length inds"
    "inds ! MoveRecord.indivIndex r = Some ind"
    by (simp_all add: peeps_get_Some)
  show ?thesis
  proof (cases "alive ind \<and> isInBounds g (newLoc r) \<and> isEmptyAt g (newLoc r)")
    case False
    with Some assms show ?thesis by (auto simp: move_step_def)
  next
    case True
    with assms(2) j have b: "isInBounds g (loc ind)" by (auto simp: on_grid_def)
    let ?g1 = "grid_set g (loc ind) 0"
    from grid_at_set [OF assms(1) b assms(3), of 0] assms(4)
    have e1: "grid_at ?g1 c = Some 0" by simp
    have ok1: "grid_ok ?g1" using assms(1) by simp
    have n1: "isInBounds ?g1 (newLoc r)" using True by simp
    have c1: "isInBounds ?g1 c" using assms(3) by simp
    from grid_at_set [OF ok1 n1 c1, of "int (MoveRecord.indivIndex r)"] assms(5) e1
    have "grid_at (grid_set ?g1 (newLoc r) (int (MoveRecord.indivIndex r))) c = Some 0"
      by simp
    with Some True show ?thesis by (simp add: move_step_def)
  qed
qed

lemma fold_move_empty:
  assumes "grid_ok g" "on_grid inds g" "isInBounds g c" "grid_at g c = Some 0"
    and "c \<notin> newLoc ` set q"
  shows "case fold move_step q (inds, g) of (inds', g') \<Rightarrow> grid_at g' c = Some 0"
  using assms
proof (induction q arbitrary: inds g)
  case Nil
  then show ?case by simp
next
  case (Cons r q)
  from Cons.prems(5) have n: "newLoc r \<noteq> c" "c \<notin> newLoc ` set q" by auto
  obtain inds1 g1 where s1: "move_step r (inds, g) = (inds1, g1)"
    by (cases "move_step r (inds, g)")
  from move_step_inv [OF Cons.prems(1,2), of r] s1
  have 1: "grid_ok g1" "on_grid inds1 g1" "Grid.sizeX g1 = Grid.sizeX g"
    "Grid.sizeY g1 = Grid.sizeY g"
    by simp_all
  from Cons.prems(3) 1(3,4) have b1: "isInBounds g1 c" by (simp add: isInBounds_def)
  from move_step_empty [OF Cons.prems(1-4) n(1)] s1 have e1: "grid_at g1 c = Some 0" by simp
  from Cons.IH [OF 1(1,2) b1 e1 n(2)] show ?case
    by (simp add: s1)
qed

text \<open>A record whose individual is dead or whose destination is not empty changes nothing.\<close>

lemma move_step_dropped:
  assumes "(\<forall>v. peeps_get inds (MoveRecord.indivIndex r) = Some v \<longrightarrow> \<not> alive v) \<or>
           \<not> isEmptyAt g (newLoc r)"
  shows "move_step r (inds, g) = (inds, g)"
  using assms by (cases "peeps_get inds (MoveRecord.indivIndex r)") (auto simp: move_step_def)

lemma drainMoveQueue_dropped:
  assumes "drainMoveQueue (ps\<lparr>moveQueue := pre\<rparr>) g = (ps', g')"
    and "(\<forall>v. peeps_get (individuals ps') (MoveRecord.indivIndex r) = Some v \<longrightarrow> \<not> alive v) \<or>
         \<not> isEmptyAt g' (newLoc r)"
  shows "drainMoveQueue (ps\<lparr>moveQueue := pre @ r # post\<rparr>) g =
         drainMoveQueue (ps\<lparr>moveQueue := pre @ post\<rparr>) g"
proof -
  obtain inds1 g1 where f: "fold move_step pre (individuals ps, g) = (inds1, g1)"
    by (cases "fold move_step pre (individuals ps, g)")
  with assms(1) have e: "individuals ps' = inds1" "g' = g1"
    by (auto simp: drainMoveQueue_def)
  from move_step_dropped [of inds1 r g1] assms(2) e
  have "move_step r (inds1, g1) = (inds1, g1)" by simp
  then show ?thesis
    by (simp add: drainMoveQueue_def f)
qed

text \<open>The two drains on a consistent state.\<close>

lemma endOfStep_drains:
  obtains d inds1 g1 inds2 g2 where
    "fold death_step (deathQueue (peeps sim)) (0, individuals (peeps sim), grid sim) = (d, inds1, g1)"
    "fold move_step (moveQueue (peeps sim)) (inds1, g1) = (inds2, g2)"
    "drainDeathQueue (peeps sim) (grid sim) = (d, (peeps sim)\<lparr>individuals := inds1, deathQueue := []\<rparr>, g1)"
    "drainMoveQueue ((peeps sim)\<lparr>individuals := inds1, deathQueue := []\<rparr>) g1 =
       ((peeps sim)\<lparr>individuals := inds2, deathQueue := [], moveQueue := []\<rparr>, g2)"
    "peeps (endOfStep sim) = (peeps sim)\<lparr>individuals := inds2, deathQueue := [], moveQueue := []\<rparr>"
    "grid (endOfStep sim) = g2" "killDeaths (endOfStep sim) = killDeaths sim + d"
proof -
  let ?ps = "peeps sim" and ?g = "grid sim"
  obtain d inds1 g1 where f1: "fold death_step (deathQueue ?ps) (0, individuals ?ps, ?g) = (d, inds1, g1)"
    by (cases "fold death_step (deathQueue ?ps) (0, individuals ?ps, ?g)")
  obtain inds2 g2 where f2: "fold move_step (moveQueue ?ps) (inds1, g1) = (inds2, g2)"
    by (cases "fold move_step (moveQueue ?ps) (inds1, g1)")
  let ?ps1 = "?ps\<lparr>individuals := inds1, deathQueue := []\<rparr>"
  have dd: "drainDeathQueue ?ps ?g = (d, ?ps1, g1)"
    by (simp add: drainDeathQueue_def f1)
  have dm: "drainMoveQueue ?ps1 g1 = (?ps\<lparr>individuals := inds2, deathQueue := [], moveQueue := []\<rparr>, g2)"
    using f2 by (simp add: drainMoveQueue_def)
  have "peeps (endOfStep sim) = ?ps\<lparr>individuals := inds2, deathQueue := [], moveQueue := []\<rparr>"
    "grid (endOfStep sim) = g2" "killDeaths (endOfStep sim) = killDeaths sim + d"
    by (simp_all add: endOfStep_def dd dm)
  with f1 f2 dd dm show ?thesis by (rule that)
qed

text \<open>The move onto the cell of an individual that the death queue names.\<close>

lemma endOfStep_vacated:
  assumes inv: "sim_inv sim"
    and k: "peeps_get (individuals (peeps sim)) k = Some vk" "alive vk"
      "k \<in> DeathRecord.indivIndex ` set (deathQueue (peeps sim))"
    and i: "peeps_get (individuals (peeps sim)) i = Some vi" "alive vi"
      "i \<notin> DeathRecord.indivIndex ` set (deathQueue (peeps sim))"
    and q: "moveQueue (peeps sim) = pre @ \<lparr> MoveRecord.indivIndex = i, newLoc = loc vk \<rparr> # post"
      "loc vk \<notin> newLoc ` set pre" "i \<notin> MoveRecord.indivIndex ` set post"
  shows "(\<exists>v. peeps_get (individuals (peeps (endOfStep sim))) i = Some v \<and> alive v \<and>
            loc v = loc vk) \<and>
         grid_at (grid (endOfStep sim)) (loc vk) = Some (word_of_nat i) \<and>
         (\<exists>v. peeps_get (individuals (peeps (endOfStep sim))) k = Some v \<and> \<not> alive v)"
proof -
  let ?ps = "peeps sim" and ?g = "grid sim" and ?c = "loc vk"
  let ?r = "\<lparr> MoveRecord.indivIndex = i, newLoc = ?c \<rparr>"
  from inv have a: "grid_ok ?g" "on_grid (individuals ?ps) ?g"
    by (simp_all add: sim_inv_def)
  from k(1) have kl: "k < length (individuals ?ps)" "individuals ?ps ! k = Some vk"
    by (simp_all add: peeps_get_Some)
  from i(1) have il: "i < length (individuals ?ps)" "individuals ?ps ! i = Some vi"
    by (simp_all add: peeps_get_Some)
  from a(2) kl k(2) have cb: "isInBounds ?g ?c" by (auto simp: on_grid_def)
  obtain d inds1 g1 inds4 g4 where
    f1: "fold death_step (deathQueue ?ps) (0, individuals ?ps, ?g) = (d, inds1, g1)" and
    f4: "fold move_step (moveQueue ?ps) (inds1, g1) = (inds4, g4)" and
    e: "peeps (endOfStep sim) = ?ps\<lparr>individuals := inds4, deathQueue := [], moveQueue := []\<rparr>"
      "grid (endOfStep sim) = g4"
    by (rule endOfStep_drains [of sim])
  \<comment> \<open>after the deaths\<close>
  from fold_death_inv [OF a, of "deathQueue ?ps" 0] f1
  have 1: "grid_ok g1" "on_grid inds1 g1" "length inds1 = length (individuals ?ps)"
    "Grid.sizeX g1 = Grid.sizeX ?g" "Grid.sizeY g1 = Grid.sizeY ?g"
    by simp_all
  from cb 1(4,5) have cb1: "isInBounds g1 ?c" by (simp add: isInBounds_def)
  from fold_death_vacates [OF a kl k(2,3), of 0] f1 have ce1: "grid_at g1 ?c = Some 0"
    by simp
  from fold_death_slot [OF il, of "deathQueue ?ps" 0 ?g] f1 i(3)
  have i1: "inds1 ! i = Some vi" by auto
  from fold_death_slot [OF kl, of "deathQueue ?ps" 0 ?g] f1 k(3)
  obtain vk1 where k1: "inds1 ! k = Some vk1" "\<not> alive vk1" by auto
  from il(1) kl(1) 1(3) have l1: "i < length inds1" "k < length inds1" by simp_all
  \<comment> \<open>after the moves before the record\<close>
  obtain inds2 g2 where f2: "fold move_step pre (inds1, g1) = (inds2, g2)"
    by (cases "fold move_step pre (inds1, g1)")
  from fold_move_inv [OF 1(1,2), of pre] f2
  have 2: "grid_ok g2" "on_grid inds2 g2" "length inds2 = length inds1"
    "Grid.sizeX g2 = Grid.sizeX g1" "Grid.sizeY g2 = Grid.sizeY g1"
    by simp_all
  from cb1 2(4,5) have cb2: "isInBounds g2 ?c" by (simp add: isInBounds_def)
  from fold_move_empty [OF 1(1,2) cb1 ce1 q(2)] f2 have ce2: "grid_at g2 ?c = Some 0"
    by simp
  from fold_move_slot [OF l1(1) i1, of pre g1] f2 i(2)
  obtain v2 where i2: "inds2 ! i = Some v2" "alive v2" by auto
  from fold_move_slot [OF l1(2) k1(1), of pre g1] f2 k1(2)
  obtain vk2 where k2: "inds2 ! k = Some vk2" "\<not> alive vk2" by auto
  from l1 2(3) have l2: "i < length inds2" "k < length inds2" by simp_all
  \<comment> \<open>the record\<close>
  let ?inds3 = "inds2[i := Some (v2\<lparr>loc := ?c\<rparr>)]"
  let ?g3 = "grid_set (grid_set g2 (loc v2) 0) ?c (int i)"
  have s3: "move_step ?r (inds2, g2) = (?inds3, ?g3)"
    using l2(1) i2 cb2 ce2 by (simp add: move_step_def peeps_get_def isEmptyAt_def EMPTY_def)
  from move_step_inv [OF 2(1,2), of ?r] s3
  have 3: "grid_ok ?g3" "on_grid ?inds3 ?g3" "length ?inds3 = length inds2"
    by simp_all
  have i3: "?inds3 ! i = Some (v2\<lparr>loc := ?c\<rparr>)" using l2(1) by simp
  from move_step_slot [OF l2(2) k2(1), of ?r g2] s3 k2(2)
  obtain vk3 where k3: "?inds3 ! k = Some vk3" "\<not> alive vk3" by auto
  from l2 have l3: "i < length ?inds3" "k < length ?inds3" by simp_all
  \<comment> \<open>the moves after the record\<close>
  have f4': "fold move_step post (?inds3, ?g3) = (inds4, g4)"
    using f4 by (simp add: q(1) f2 s3)
  from fold_move_inv [OF 3(1,2), of post] f4'
  have 4: "grid_ok g4" "on_grid inds4 g4" "length inds4 = length ?inds3"
    by simp_all
  from fold_move_slot [OF l3(1) i3, of post ?g3] f4' q(3)
  have i4: "inds4 ! i = Some (v2\<lparr>loc := ?c\<rparr>)" by auto
  from fold_move_slot [OF l3(2) k3(1), of post ?g3] f4' k3(2)
  obtain vk4 where k4: "inds4 ! k = Some vk4" "\<not> alive vk4" by auto
  from l3 4(3) have l4: "i < length inds4" "k < length inds4" by simp_all
  from 4(2) l4(1) i4 i2(2) have "grid_at g4 ?c = Some (word_of_nat i)"
    by (auto simp: on_grid_def)
  with i4 k4 l4 i2(2) show ?thesis
    by (simp add: e peeps_get_def)
qed

text \<open>
  Claim C5, amended: the order of the drains at the end of a step and what it means for
  the queued moves. On a consistent state (\<open>sim_inv\<close>, in which the index of every
  living individual is between 1 and \<^verbatim>\<open>0xFFFE\<close>, so the population is of at most 65534):

  \<^item> the end of the step is \<^verbatim>\<open>drainDeathQueue\<close> followed by \<^verbatim>\<open>drainMoveQueue\<close> on what
    the deaths left, and the deaths are added to \<^verbatim>\<open>killDeaths\<close>;
  \<^item> a record of the move queue whose individual is missing or dead, or whose destination
    is not empty, when its turn comes (after the records \<open>pre\<close> before it) is dropped:
    the drain gives what it gives without the record;
  \<^item> after both drains two different living individuals stand on different cells;
  \<^item> when a living individual \<open>k\<close> is named by the death queue and a living individual
    \<open>i\<close>, itself not named by the death queue, has a queued move to the cell of \<open>k\<close>,
    no earlier record has that destination and no later record is of \<open>i\<close>, then after
    both drains \<open>i\<close> is alive on that cell, the cell holds \<open>i\<close>, and \<open>k\<close> is dead.
\<close>

theorem endOfStep_queue_semantics:
  assumes "sim_inv sim"
  shows
    "(\<exists>deaths ps1 g1 ps2 g2.
        drainDeathQueue (peeps sim) (grid sim) = (deaths, ps1, g1) \<and>
        drainMoveQueue ps1 g1 = (ps2, g2) \<and>
        peeps (endOfStep sim) = ps2 \<and> grid (endOfStep sim) = g2 \<and>
        killDeaths (endOfStep sim) = killDeaths sim + deaths) \<and>
     (\<forall>ps g pre r post ps' g'.
        drainMoveQueue (ps\<lparr>moveQueue := pre\<rparr>) g = (ps', g') \<and>
        ((\<forall>v. peeps_get (individuals ps') (MoveRecord.indivIndex r) = Some v \<longrightarrow> \<not> alive v) \<or>
         \<not> isEmptyAt g' (newLoc r)) \<longrightarrow>
        drainMoveQueue (ps\<lparr>moveQueue := pre @ r # post\<rparr>) g =
        drainMoveQueue (ps\<lparr>moveQueue := pre @ post\<rparr>) g) \<and>
     (\<forall>i j a b.
        peeps_get (individuals (peeps (endOfStep sim))) i = Some a \<and> alive a \<and>
        peeps_get (individuals (peeps (endOfStep sim))) j = Some b \<and> alive b \<and> i \<noteq> j \<longrightarrow>
        loc a \<noteq> loc b) \<and>
     (\<forall>i k vi vk pre post.
        peeps_get (individuals (peeps sim)) k = Some vk \<and> alive vk \<and>
        k \<in> DeathRecord.indivIndex ` set (deathQueue (peeps sim)) \<and>
        peeps_get (individuals (peeps sim)) i = Some vi \<and> alive vi \<and>
        i \<notin> DeathRecord.indivIndex ` set (deathQueue (peeps sim)) \<and>
        moveQueue (peeps sim) = pre @ \<lparr> MoveRecord.indivIndex = i, newLoc = loc vk \<rparr> # post \<and>
        loc vk \<notin> newLoc ` set pre \<and> i \<notin> MoveRecord.indivIndex ` set post \<longrightarrow>
        (\<exists>v. peeps_get (individuals (peeps (endOfStep sim))) i = Some v \<and> alive v \<and>
           loc v = loc vk) \<and>
        grid_at (grid (endOfStep sim)) (loc vk) = Some (word_of_nat i) \<and>
        (\<exists>v. peeps_get (individuals (peeps (endOfStep sim))) k = Some v \<and> \<not> alive v))"
proof (intro conjI)
  show "\<exists>deaths ps1 g1 ps2 g2.
        drainDeathQueue (peeps sim) (grid sim) = (deaths, ps1, g1) \<and>
        drainMoveQueue ps1 g1 = (ps2, g2) \<and>
        peeps (endOfStep sim) = ps2 \<and> grid (endOfStep sim) = g2 \<and>
        killDeaths (endOfStep sim) = killDeaths sim + deaths"
    by (rule endOfStep_drains [of sim]) blast
next
  show "\<forall>ps g pre r post ps' g'.
        drainMoveQueue (ps\<lparr>moveQueue := pre\<rparr>) g = (ps', g') \<and>
        ((\<forall>v. peeps_get (individuals ps') (MoveRecord.indivIndex r) = Some v \<longrightarrow> \<not> alive v) \<or>
         \<not> isEmptyAt g' (newLoc r)) \<longrightarrow>
        drainMoveQueue (ps\<lparr>moveQueue := pre @ r # post\<rparr>) g =
        drainMoveQueue (ps\<lparr>moveQueue := pre @ post\<rparr>) g"
    using drainMoveQueue_dropped by blast
next
  from endOfStep_inv [OF assms]
  have o: "on_grid (individuals (peeps (endOfStep sim))) (grid (endOfStep sim))"
    by (simp add: sim_inv_def)
  show "\<forall>i j a b.
        peeps_get (individuals (peeps (endOfStep sim))) i = Some a \<and> alive a \<and>
        peeps_get (individuals (peeps (endOfStep sim))) j = Some b \<and> alive b \<and> i \<noteq> j \<longrightarrow>
        loc a \<noteq> loc b"
    using on_grid_other_cell [OF o] by (simp add: peeps_get_Some) blast
next
  show "\<forall>i k vi vk pre post.
        peeps_get (individuals (peeps sim)) k = Some vk \<and> alive vk \<and>
        k \<in> DeathRecord.indivIndex ` set (deathQueue (peeps sim)) \<and>
        peeps_get (individuals (peeps sim)) i = Some vi \<and> alive vi \<and>
        i \<notin> DeathRecord.indivIndex ` set (deathQueue (peeps sim)) \<and>
        moveQueue (peeps sim) = pre @ \<lparr> MoveRecord.indivIndex = i, newLoc = loc vk \<rparr> # post \<and>
        loc vk \<notin> newLoc ` set pre \<and> i \<notin> MoveRecord.indivIndex ` set post \<longrightarrow>
        (\<exists>v. peeps_get (individuals (peeps (endOfStep sim))) i = Some v \<and> alive v \<and>
           loc v = loc vk) \<and>
        grid_at (grid (endOfStep sim)) (loc vk) = Some (word_of_nat i) \<and>
        (\<exists>v. peeps_get (individuals (peeps (endOfStep sim))) k = Some v \<and> \<not> alive v)"
    using endOfStep_vacated [OF assms] by blast
qed

theorem endOfStep_queue_semantics_witness:
  "sim_inv queue_sim \<and>
   (\<exists>v. peeps_get (individuals (peeps (endOfStep queue_sim))) 1 = Some v \<and> alive v \<and>
      loc v = \<lparr> cx = 1, cy = 0 \<rparr>) \<and>
   grid_at (grid (endOfStep queue_sim)) \<lparr> cx = 1, cy = 0 \<rparr> = Some 1 \<and>
   (\<exists>v. peeps_get (individuals (peeps (endOfStep queue_sim))) 2 = Some v \<and> \<not> alive v) \<and>
   data (grid (endOfStep queue_sim)) = [0, 1, BARRIER]"
proof -
  let ?a = "queue_agent 1 \<lparr> cx = 0, cy = 0 \<rparr>" and ?b = "queue_agent 2 \<lparr> cx = 1, cy = 0 \<rparr>"
  note t = endOfStep_queue_semantics [OF queue_sim_inv, THEN conjunct2, THEN conjunct2,
      THEN conjunct2, rule_format, where i = 1 and k = 2 and vi = ?a and vk = ?b
      and pre = "[]" and post = "[]"]
  have p: "peeps_get (individuals (peeps queue_sim)) 2 = Some ?b \<and> alive ?b \<and>
        2 \<in> DeathRecord.indivIndex ` set (deathQueue (peeps queue_sim)) \<and>
        peeps_get (individuals (peeps queue_sim)) 1 = Some ?a \<and> alive ?a \<and>
        1 \<notin> DeathRecord.indivIndex ` set (deathQueue (peeps queue_sim)) \<and>
        moveQueue (peeps queue_sim) = [] @ \<lparr> MoveRecord.indivIndex = 1, newLoc = loc ?b \<rparr> # [] \<and>
        loc ?b \<notin> newLoc ` set [] \<and> 1 \<notin> MoveRecord.indivIndex ` set []"
    by (simp add: queue_sim_def queue_agent_def peeps_get_def)
  have e: "data (grid (endOfStep queue_sim)) = [0, 1, BARRIER]"
    by (simp add: endOfStep_def drainDeathQueue_def drainMoveQueue_def queue_sim_def
        death_step_def move_step_def peeps_get_def queue_agent_def grid_set_def grid_idx_def
        Let_def isInBounds_def isEmptyAt_def grid_at_def EMPTY_def)
  have l: "loc ?b = \<lparr> cx = 1, cy = 0 \<rparr>" by (simp add: queue_agent_def)
  from t [OF p] queue_sim_inv e show ?thesis
    unfolding l by simp
qed

text \<open>
  The loop over the population queues a move only to a cell that is empty in the grid
  of the step, which the loop does not change: never to the cell of a living individual.
  The last case of the theorem above is about move queues filled in another way.
\<close>

lemma stepIndividuals_moves_to_empty:
  assumes "sim_inv sim" "stepIndividuals f is sim = Inr sim'"
  shows "\<exists>added. moveQueue (peeps sim') = moveQueue (peeps sim) @ added \<and>
           (\<forall>r \<in> set added. \<forall>k v. peeps_get (individuals (peeps sim)) k = Some v \<and> alive v \<longrightarrow>
              newLoc r \<noteq> loc v)"
proof -
  from assms(1) have a: "on_grid (individuals (peeps sim)) (grid sim)"
    "dirs_ok (individuals (peeps sim))"
    by (simp_all add: sim_inv_def)
  from stepIndividuals_ok [OF a(2), of f "is"] assms(2)
  obtain added where m: "moveQueue (peeps sim') = moveQueue (peeps sim) @ added"
    "\<forall>r \<in> set added. isEmptyAt (grid sim) (newLoc r)"
    by auto
  have "newLoc r \<noteq> loc v"
    if "r \<in> set added" "peeps_get (individuals (peeps sim)) k = Some v" "alive v" for r k v
  proof
    assume e: "newLoc r = loc v"
    from that(2) have k: "k < length (individuals (peeps sim))" "individuals (peeps sim) ! k = Some v"
      by (simp_all add: peeps_get_Some)
    with a(1) that(3) have o: "grid_at (grid sim) (loc v) = Some (word_of_nat k)" "0 < k" "k < 65535"
      by (auto simp: on_grid_def)
    from m(2) that(1) e have "grid_at (grid sim) (loc v) = Some EMPTY"
      by (auto simp: isEmptyAt_def)
    with o(1) word16_of_nat_not_empty [OF o(2,3)] show False by simp
  qed
  with m(1) show ?thesis by blast
qed

text \<open>
  Claim C5 fails as stated, whatever the population: the cell of the individual 65536 holds
  its index as 16 bits, which is 0, so \<^verbatim>\<open>isEmptyAt\<close> holds of it. The move of the
  individual 1 onto that cell is not dropped, and after both drains the two living
  individuals stand on the same cell.
\<close>

theorem endOfStep_shares_cell:
  "grid_at (grid wrapped_index_sim) \<lparr> cx = 0, cy = 0 \<rparr> = Some (word_of_nat 65536) \<and>
   grid_at (grid wrapped_index_sim) \<lparr> cx = 1, cy = 0 \<rparr> = Some (word_of_nat 1) \<and>
   (\<exists>a b. peeps_get (individuals (peeps wrapped_index_sim)) 1 = Some a \<and> alive a \<and>
      loc a = \<lparr> cx = 1, cy = 0 \<rparr> \<and>
      peeps_get (individuals (peeps wrapped_index_sim)) 65536 = Some b \<and> alive b \<and>
      loc b = \<lparr> cx = 0, cy = 0 \<rparr>) \<and>
   (\<exists>a b. peeps_get (individuals (peeps (endOfStep wrapped_index_sim))) 1 = Some a \<and> alive a \<and>
      peeps_get (individuals (peeps (endOfStep wrapped_index_sim))) 65536 = Some b \<and> alive b \<and>
      loc a = loc b)"
proof -
  define a where "a = queue_agent 1 \<lparr> cx = 1, cy = 0 \<rparr>"
  define b where "b = queue_agent 65536 \<lparr> cx = 0, cy = 0 \<rparr>"
  define bs where "bs = None # Some a # dead_slots 2 65536"
  define g where "g = \<lparr> Grid.sizeX = 2, sizeY = 1, data = [0, 1] \<rparr>"
  let ?sim = wrapped_index_sim
  let ?c = "\<lparr> cx = 0, cy = 0 \<rparr>"
  have lb: "length bs = 65536" by (simp add: bs_def)
  have b1: "bs ! Suc 0 = Some a" by (simp add: bs_def)
  have inds: "individuals (peeps ?sim) = bs @ [Some b]"
    by (simp add: wrapped_index_sim_def bs_def a_def b_def)
  have gr: "grid ?sim = g"
    by (simp add: wrapped_index_sim_def g_def)
  have q: "moveQueue (peeps ?sim) = [\<lparr> MoveRecord.indivIndex = 1, newLoc = ?c \<rparr>]"
    "deathQueue (peeps ?sim) = []"
    by (simp_all add: wrapped_index_sim_def)
  have af: "alive a" "loc a = \<lparr> cx = 1, cy = 0 \<rparr>" "alive b" "loc b = ?c"
    by (simp_all add: a_def b_def queue_agent_def)
  have g1: "peeps_get (bs @ [Some b]) 1 = Some a"
    "peeps_get (bs @ [Some b]) 65536 = Some b"
    by (simp_all add: peeps_get_def nth_append lb b1)
  have ge: "isInBounds g ?c" "isEmptyAt g ?c"
    "grid_at g ?c = Some (word_of_nat 65536)" "grid_at g \<lparr> cx = 1, cy = 0 \<rparr> = Some (word_of_nat 1)"
    by (simp_all add: g_def isInBounds_def isEmptyAt_def grid_at_def grid_idx_def Let_def
        EMPTY_def)
  have mv: "move_step \<lparr> MoveRecord.indivIndex = 1, newLoc = ?c \<rparr> (bs @ [Some b], g) =
      ((bs @ [Some b])[1 := Some (a\<lparr>loc := ?c\<rparr>)],
       grid_set (grid_set g (loc a) 0) ?c (int 1))"
    using g1(1) af(1) ge(1,2) by (simp add: move_step_def)
  have e: "individuals (peeps (endOfStep ?sim)) = (bs @ [Some b])[1 := Some (a\<lparr>loc := ?c\<rparr>)]"
    unfolding endOfStep_def drainDeathQueue_def drainMoveQueue_def
    using mv by (simp add: q inds gr)
  have r1: "peeps_get ((bs @ [Some b])[1 := Some (a\<lparr>loc := ?c\<rparr>)]) 1 = Some (a\<lparr>loc := ?c\<rparr>)"
    "peeps_get ((bs @ [Some b])[1 := Some (a\<lparr>loc := ?c\<rparr>)]) 65536 = Some b"
    by (simp_all add: peeps_get_def nth_append lb nth_list_update)
  have 1: "\<exists>x y. peeps_get (individuals (peeps ?sim)) 1 = Some x \<and> alive x \<and>
      loc x = \<lparr> cx = 1, cy = 0 \<rparr> \<and>
      peeps_get (individuals (peeps ?sim)) 65536 = Some y \<and> alive y \<and> loc y = ?c"
    unfolding inds using g1 af by blast
  have 2: "\<exists>x y. peeps_get (individuals (peeps (endOfStep ?sim))) 1 = Some x \<and> alive x \<and>
      peeps_get (individuals (peeps (endOfStep ?sim))) 65536 = Some y \<and> alive y \<and>
      loc x = loc y"
    unfolding e r1 using af by simp
  from ge(3,4) 1 2 show ?thesis
    unfolding gr by (intro conjI)
qed

end
